theory Spec2Isabelle
  imports Complex_Main "HOL-Library.Word"
begin

unbundle bit_operations_syntax

section \<open>Machine types\<close>

text \<open>
  The firmware targets the ESP32: \<open>uint8_t\<close>, \<open>uint16_t\<close>, \<open>uint32_t\<close> and
  \<open>uint64_t\<close> are words of that width, \<open>int\<close> has 32 bits and \<open>size_t\<close> has 32 bits.
  Vector sizes and vector indices are natural numbers (no vector of the engine can
  hold \<open>2 ^ 32\<close> elements); every other integer keeps its width.

  A C \<open>float\<close> is modelled by the real number it denotes. Comparisons of finite
  floats are the comparisons of those reals; the rounding of arithmetic results, the
  infinities and NaN are outside the model. Every concrete value used below is a small
  integer or a small dyadic fraction, which binary32 represents exactly.

  An Arduino \<open>String\<close> that is cut out of the container's string table is the
  list of its bytes.
\<close>

type_synonym u8 = "8 word"
type_synonym u16 = "16 word"
type_synonym u32 = "32 word"
type_synonym u64 = "64 word"
type_synonym float = real
type_synonym String = "u8 list"

section \<open>Types.h\<close>

datatype Operation = EQ | NE | GT | GE | LT | LE | WITHIN | OUTSIDE | HOLD

text \<open>\<open>ParamType\<close>; \<open>INT\<close> is reserved syntax, so the constructors carry a prefix.\<close>

datatype ParamType = P_INT | P_FLOAT | P_STRING | P_BOOL

record RuntimeSignal =
  canId :: u32
  startBit :: u16
  bitLength :: u8
  bigEndian :: bool
  isSigned :: bool
  factor :: float
  offset :: float
  "value" :: float
  lastValue :: float
  lastDebugValue :: float
  lastUpdateMs :: u32
  everSet :: bool

record RuntimeCondition =
  signalIdx :: u8
  operation :: Operation
  value1 :: float
  value2 :: float
  holdMs :: u32
  holdStartMs :: u32
  holdActive :: bool
  lastResult :: bool

text \<open>
  \<open>RuntimeParam\<close> holds \<open>intVal\<close> and \<open>floatVal\<close> in a union; only the member
  that \<open>ptype\<close> selects is ever read, so the record keeps both.
\<close>

record RuntimeParam =
  ptype :: ParamType
  intVal :: u32
  floatVal :: float
  strVal :: String

record RuntimeAction =
  capabilityId :: String
  params :: "RuntimeParam list"

record RuntimeRule =
  conditionMask :: u32
  actionStartIdx :: u8
  actionCount :: u8
  debounceMs :: u16
  cooldownMs :: u16
  lastTriggerMs :: u32
  lastConditionChangeMs :: u32
  lastConditionState :: bool

text \<open>\<open>CanFrame\<close> of interfaces/CAN.h; \<open>fdata\<close> is the array \<open>uint8_t data[8]\<close>.\<close>

record CanFrame =
  fid :: u32
  fdata :: "u8 list"
  dlc :: u8
  extended :: bool
  rtr :: bool

section \<open>Engine.cpp: signal decoding\<close>

text \<open>\<open>(data[byteIdx] >> bitIdx) & 1\<close>, widened to \<open>uint64_t\<close>.\<close>

definition payloadBit :: "u8 list \<Rightarrow> nat \<Rightarrow> nat \<Rightarrow> u64" where
  "payloadBit data byteIdx bitIdx = ucast (drop_bit bitIdx (data ! byteIdx) AND 1)"

text \<open>
  One pass of the little-endian loop of \<open>extractBits\<close>. \<open>bitPos\<close> is a
  \<open>uint16_t\<close> and \<open>byteIdx\<close>, \<open>bitIdx\<close> are \<open>uint8_t\<close>: the sum and the quotient
  are narrowed as the declarations of the source narrow them.
\<close>

definition leStep :: "u8 list \<Rightarrow> u16 \<Rightarrow> nat \<Rightarrow> u64 \<Rightarrow> u64" where
  "leStep data start i result =
     (let bitPos = (start + of_nat i :: u16);
          byteIdx = (ucast (bitPos div 8) :: u8);
          bitIdx = (ucast (bitPos mod 8) :: u8)
      in if byteIdx < 8
         then result OR push_bit i (payloadBit data (unat byteIdx) (unat bitIdx))
         else result)"

text \<open>
  One pass of the big-endian loop. \<open>bitPos\<close> is an \<open>int\<close>; a position outside
  \<open>0..63\<close> takes the \<open>continue\<close> and leaves the accumulator as it is.
\<close>

definition beStep :: "u8 list \<Rightarrow> u16 \<Rightarrow> nat \<Rightarrow> u64 \<Rightarrow> u64" where
  "beStep data start i result =
     (let bitPos = int (unat start) - int i
      in if bitPos < 0 \<or> bitPos \<ge> 64 then result
         else push_bit 1 result OR payloadBit data (nat bitPos div 8) (nat bitPos mod 8))"

text \<open>The loops run \<open>i\<close> from \<open>0\<close> to \<open>len - 1\<close>, with \<open>len \<le> 64\<close>.\<close>

definition extractBits :: "u8 list \<Rightarrow> u16 \<Rightarrow> u8 \<Rightarrow> bool \<Rightarrow> u64" where
  "extractBits data start len be =
     (if len = 0 \<or> len > 64 then 0
      else if \<not> be then fold (leStep data start) [0..<unat len] 0
      else fold (beStep data start) [0..<unat len] 0)"

definition decodeSignal :: "RuntimeSignal \<Rightarrow> u8 list \<Rightarrow> float" where
  "decodeSignal sig data =
     (let raw = extractBits data (startBit sig) (bitLength sig) (bigEndian sig);
          val =
            (if isSigned sig then
               (let raw' =
                  (if bitLength sig > 0 \<and> bitLength sig < 64 \<and>
                      raw AND push_bit (unat (bitLength sig) - 1) 1 \<noteq> 0
                   then raw OR push_bit (unat (bitLength sig)) (NOT 0)
                   else raw)
                in real_of_int (sint raw'))
             else real (unat raw))
      in val * factor sig + offset sig)"

text \<open>
  The big-endian extraction as the specification words it: the accumulator is
  shifted for every \<open>i\<close> below \<open>bit_length\<close>, and a position outside the payload
  shifts in a zero bit.
\<close>

definition beStep_spec :: "u8 list \<Rightarrow> u16 \<Rightarrow> nat \<Rightarrow> u64 \<Rightarrow> u64" where
  "beStep_spec data start i result =
     (let bitPos = int (unat start) - int i
      in push_bit 1 result OR
         (if bitPos < 0 \<or> bitPos \<ge> 64 then 0
          else payloadBit data (nat bitPos div 8) (nat bitPos mod 8)))"

definition extractBitsBE_spec :: "u8 list \<Rightarrow> u16 \<Rightarrow> u8 \<Rightarrow> u64" where
  "extractBitsBE_spec data start len = fold (beStep_spec data start) [0..<unat len] 0"

text \<open>
  A raw signal definition, with the runtime state of a fresh \<open>RuntimeSignal\<close>. The
  initial \<open>lastDebugValue\<close> is the binary32 value of the literal \<open>-999999.9f\<close>.
\<close>

definition mkSignal :: "u32 \<Rightarrow> u16 \<Rightarrow> u8 \<Rightarrow> bool \<Rightarrow> bool \<Rightarrow> float \<Rightarrow> float \<Rightarrow> RuntimeSignal" where
  "mkSignal cid sb bl be sg f off =
     \<lparr>canId = cid, startBit = sb, bitLength = bl, bigEndian = be, isSigned = sg,
      factor = f, offset = off, value = 0, lastValue = 0,
      lastDebugValue = - 7999999 / 8, lastUpdateMs = 0, everSet = False\<rparr>"

text \<open>
  The number of loop indices \<open>i < len\<close> whose big-endian position \<open>start - i\<close>
  lies in the payload, \<open>0..63\<close>.
\<close>

definition inRangeCount :: "u16 \<Rightarrow> u8 \<Rightarrow> nat" where
  "inRangeCount start len =
     length (filter (\<lambda>i. i \<le> unat start \<and> unat start - i < 64) [0..<unat len])"

definition beCount :: "nat \<Rightarrow> nat \<Rightarrow> nat" where
  "beCount S n = min n (S + 1) - (S - 63)"

section \<open>Protocol.cpp: CRC\<close>

text \<open>
  Modelled from the spec: \<open>esp_crc32_le\<close> is a ROM routine of the ESP32 and not part of
  the repository. The specification names the checksum CRC-32/IEEE with the reflected
  polynomial \<open>0xEDB88320\<close>; the routine takes the checksum of the bytes before
  (0 for none) and continues it, complementing the register on entry and on exit.
\<close>

definition crcBit :: "u32 \<Rightarrow> u32" where
  "crcBit c = (if bit c 0 then drop_bit 1 c XOR 0xEDB88320 else drop_bit 1 c)"

definition crcByte :: "u8 \<Rightarrow> u32 \<Rightarrow> u32" where
  "crcByte b c =
     crcBit (crcBit (crcBit (crcBit (crcBit (crcBit (crcBit (crcBit (c XOR ucast b))))))))"

definition esp_crc32_le :: "u32 \<Rightarrow> u8 list \<Rightarrow> u32" where
  "esp_crc32_le crc buf = NOT (fold crcByte buf (NOT crc))"

definition calculateCRC32 :: "u8 list \<Rightarrow> u32" where
  "calculateCRC32 data = esp_crc32_le 0 data"

section \<open>Protocol.h: the packed wire structures\<close>

text \<open>
  The parser casts the buffer to packed structures and reads their fields; all integers
  are little-endian. \<open>rd8\<close>, \<open>rd16\<close>, \<open>rd32\<close> read a field at a byte offset.
\<close>

definition rd8 :: "u8 list \<Rightarrow> nat \<Rightarrow> u8" where
  "rd8 d off = d ! off"

definition rd16 :: "u8 list \<Rightarrow> nat \<Rightarrow> u16" where
  "rd16 d off = ucast (d ! off) OR push_bit 8 (ucast (d ! (off + 1)))"

definition rd32 :: "u8 list \<Rightarrow> nat \<Rightarrow> u32" where
  "rd32 d off =
     ucast (d ! off) OR push_bit 8 (ucast (d ! (off + 1))) OR
     push_bit 16 (ucast (d ! (off + 2))) OR push_bit 24 (ucast (d ! (off + 3)))"

text \<open>
  The real number a binary32 bit pattern denotes: sign, 8 exponent bits, 23 fraction
  bits. A pattern with exponent 255 (an infinity or a NaN) is read by the formula of
  the normal numbers, which places an infinity beyond every finite float.
\<close>

definition f32_value :: "u32 \<Rightarrow> float" where
  "f32_value w =
     (let e = unat (take_bit 8 (drop_bit 23 w));
          f = unat (take_bit 23 w);
          m = (if e = 0 then real f * 2 else real (2 ^ 23 + f) * 2 ^ e) / 2 ^ 150
      in if bit w 31 then - m else m)"

definition rdF32 :: "u8 list \<Rightarrow> nat \<Rightarrow> float" where
  "rdF32 d off = f32_value (rd32 d off)"

text \<open>The sizes of the packed structures.\<close>

definition sizeof_WBPRulesHeader :: nat where "sizeof_WBPRulesHeader = 24"
definition sizeof_WBPMeta :: nat where "sizeof_WBPMeta = 40"
definition sizeof_WBPSignal :: nat where "sizeof_WBPSignal = 16"
definition sizeof_WBPCondition :: nat where "sizeof_WBPCondition = 12"
definition sizeof_WBPAction :: nat where "sizeof_WBPAction = 8"
definition sizeof_WBPActionParam :: nat where "sizeof_WBPActionParam = 4"
definition sizeof_WBPRule :: nat where "sizeof_WBPRule = 10"

text \<open>The fields of \<open>WBPRulesHeader\<close>, at their packed offsets.\<close>

definition h_magic :: "u8 list \<Rightarrow> u32" where "h_magic d = rd32 d 0"
definition h_version :: "u8 list \<Rightarrow> u8" where "h_version d = rd8 d 4"
definition h_flags :: "u8 list \<Rightarrow> u8" where "h_flags d = rd8 d 5"
definition h_totalSize :: "u8 list \<Rightarrow> u16" where "h_totalSize d = rd16 d 6"
definition h_signalCount :: "u8 list \<Rightarrow> u8" where "h_signalCount d = rd8 d 8"
definition h_conditionCount :: "u8 list \<Rightarrow> u8" where "h_conditionCount d = rd8 d 9"
definition h_actionCount :: "u8 list \<Rightarrow> u8" where "h_actionCount d = rd8 d 10"
definition h_ruleCount :: "u8 list \<Rightarrow> u8" where "h_ruleCount d = rd8 d 11"
definition h_actionParamCount :: "u8 list \<Rightarrow> u16" where "h_actionParamCount d = rd16 d 12"
definition h_metaOffset :: "u8 list \<Rightarrow> u16" where "h_metaOffset d = rd16 d 14"
definition h_stringTableOffset :: "u8 list \<Rightarrow> u16" where "h_stringTableOffset d = rd16 d 16"
definition h_crc32 :: "u8 list \<Rightarrow> u32" where "h_crc32 d = rd32 d 20"

definition WBP_MAGIC_RULES :: u32 where "WBP_MAGIC_RULES = 0xC0DE5702"
definition WBP_VERSION :: u8 where "WBP_VERSION = 2"
definition WBP_MIN_VERSION :: u8 where "WBP_MIN_VERSION = 2"
definition WBP_FLAG_HAS_META :: u8 where "WBP_FLAG_HAS_META = 1"

section \<open>Protocol.cpp: parseRules\<close>

text \<open>
  \<open>parseRules\<close> returns \<open>false\<close> at every failed check, after a line on the serial
  log. The error value names the check, with the names of the specification:
  \<^item> \<open>ShortHeader\<close>: "Data too short for header";
  \<^item> \<open>BadMagic\<close>: "Invalid magic";
  \<^item> \<open>UnsupportedVersion\<close>: "Unsupported version";
  \<^item> \<open>TruncatedBody\<close>: "Declared size > buffer" and "Total size too small";
  \<^item> \<open>CrcMismatch\<close>: "CRC mismatch";
  \<^item> \<open>BadStringTableOffset\<close>: "Invalid string table offset";
  \<^item> \<open>CountsOverflow\<close>: "Counts exceed buffer";
  \<^item> \<open>InvalidSignalIdx\<close>: "Condition references invalid signal";
  \<^item> \<open>InvalidOperation\<close>: "Condition has invalid operation";
  \<^item> \<open>InvalidHoldDuration\<close>: "Invalid hold time";
  \<^item> \<open>EmptyCapabilityId\<close>: "Empty capability ID at action";
  \<^item> \<open>ParamRangeOverflow\<close>: "Action param overflow";
  \<^item> \<open>InvalidParamType\<close>: "param has invalid type";
  \<^item> \<open>ConditionMaskOutOfRange\<close>: "Rule references non-existent condition";
  \<^item> \<open>ActionRangeOverflow\<close>: "Rule action range exceeds".
\<close>

datatype ParseError =
    ShortHeader | BadMagic | UnsupportedVersion | TruncatedBody
  | BadStringTableOffset | CountsOverflow | InvalidSignalIdx | InvalidOperation
  | InvalidHoldDuration | InvalidParamType | EmptyCapabilityId | ParamRangeOverflow
  | ActionRangeOverflow | ConditionMaskOutOfRange | CrcMismatch

text \<open>
  A loop that parses one element per pass, appends it to the output vector and returns
  at the first element that fails a check.
\<close>

fun mapE :: "('a \<Rightarrow> 'e + 'b) \<Rightarrow> 'a list \<Rightarrow> 'e + 'b list" where
  "mapE f [] = Inr []"
| "mapE f (x # xs) =
     (case f x of
        Inl e \<Rightarrow> Inl e
      | Inr y \<Rightarrow> (case mapE f xs of Inl e \<Rightarrow> Inl e | Inr ys \<Rightarrow> Inr (y # ys)))"

text \<open>
  \<open>readStringFromTable\<close>; \<open>tbl\<close> is the string table, \<open>tableLen\<close> bytes from
  \<open>stringTable\<close> on. \<open>strnlen\<close> counts the bytes before the first NUL, at most
  \<open>maxLen\<close>.
\<close>

definition readStringFromTable :: "u8 list \<Rightarrow> u16 \<Rightarrow> String" where
  "readStringFromTable tbl off =
     (let tableLen = length tbl; offset = unat off in
      if offset \<ge> tableLen then []
      else
        let maxLen = tableLen - offset;
            s = takeWhile (\<lambda>b. b \<noteq> 0) (drop offset tbl);
            len = length s
        in if len = maxLen \<and> (offset + len \<ge> tableLen \<or> tbl ! (offset + len) \<noteq> 0)
           then [] else s)"

definition expectedSize :: "u8 list \<Rightarrow> nat" where
  "expectedSize d =
     sizeof_WBPRulesHeader +
     (if h_flags d AND WBP_FLAG_HAS_META \<noteq> 0 then sizeof_WBPMeta else 0) +
     unat (h_signalCount d) * sizeof_WBPSignal +
     unat (h_conditionCount d) * sizeof_WBPCondition +
     unat (h_actionCount d) * sizeof_WBPAction +
     unat (h_actionParamCount d) * sizeof_WBPActionParam +
     unat (h_ruleCount d) * sizeof_WBPRule"

text \<open>The offset of the first section: behind the header and the optional meta block.\<close>

definition bodyOffset :: "u8 list \<Rightarrow> nat" where
  "bodyOffset d =
     sizeof_WBPRulesHeader +
     (if h_flags d AND WBP_FLAG_HAS_META \<noteq> 0 then sizeof_WBPMeta else 0)"

text \<open>The checks of the header, in the order of the source.\<close>

definition checkHeader :: "u8 list \<Rightarrow> ParseError + unit" where
  "checkHeader d =
     (let len = length d in
      if len < sizeof_WBPRulesHeader then Inl ShortHeader
      else if h_magic d \<noteq> WBP_MAGIC_RULES then Inl BadMagic
      else if h_version d < WBP_MIN_VERSION \<or> h_version d > WBP_VERSION
        then Inl UnsupportedVersion
      else if unat (h_totalSize d) > len then Inl TruncatedBody
      else if unat (h_totalSize d) < sizeof_WBPRulesHeader then Inl TruncatedBody
      else if calculateCRC32
                (take (unat (h_totalSize d) - sizeof_WBPRulesHeader)
                   (drop sizeof_WBPRulesHeader d)) \<noteq> h_crc32 d
        then Inl CrcMismatch
      else if unat (h_stringTableOffset d) < bodyOffset d \<or>
              unat (h_stringTableOffset d) \<ge> unat (h_totalSize d)
        then Inl BadStringTableOffset
      else if expectedSize d > len \<or> unat (h_stringTableOffset d) < expectedSize d
        then Inl CountsOverflow
      else Inr ())"

definition parseSignal :: "u8 list \<Rightarrow> nat \<Rightarrow> nat \<Rightarrow> RuntimeSignal" where
  "parseSignal d off i =
     (let p = off + i * sizeof_WBPSignal in
      mkSignal (rd32 d p) (rd16 d (p + 4)) (rd8 d (p + 6))
        (rd8 d (p + 7) AND 1 \<noteq> 0) (rd8 d (p + 7) AND 2 \<noteq> 0)
        (rdF32 d (p + 8)) (rdF32 d (p + 12)))"

definition operationOfCode :: "u8 \<Rightarrow> Operation" where
  "operationOfCode c =
     (if c = 0 then EQ else if c = 1 then NE else if c = 2 then GT else if c = 3 then GE
      else if c = 4 then LT else if c = 5 then LE else if c = 6 then WITHIN
      else if c = 7 then OUTSIDE else HOLD)"

text \<open>
  One pass of the condition loop. \<open>static_cast<uint32_t>\<close> of a float between 0 and
  86400000 drops the fraction.
\<close>

definition parseCondition :: "u8 list \<Rightarrow> nat \<Rightarrow> nat \<Rightarrow> ParseError + RuntimeCondition" where
  "parseCondition d off i =
     (let p = off + i * sizeof_WBPCondition;
          sIdx = rd8 d p;
          opCode = rd8 d (p + 1);
          v1 = rdF32 d (p + 4);
          v2 = rdF32 d (p + 8)
      in if sIdx \<ge> h_signalCount d then Inl InvalidSignalIdx
         else if opCode > 8 then Inl InvalidOperation
         else if operationOfCode opCode = HOLD \<and> (v1 < 0 \<or> v1 > 86400000)
           then Inl InvalidHoldDuration
         else Inr \<lparr>signalIdx = sIdx, operation = operationOfCode opCode,
                    value1 = v1, value2 = v2,
                    holdMs = (if operationOfCode opCode = HOLD then of_nat (nat \<lfloor>v1\<rfloor>) else 0),
                    holdStartMs = 0, holdActive = False, lastResult = False\<rparr>)"

definition parseType :: "u8 \<Rightarrow> ParamType" where
  "parseType t =
     (if t = 0 then P_INT else if t = 1 then P_FLOAT else if t = 2 then P_STRING else P_BOOL)"

text \<open>One pass of the parameter loop of an action; \<open>pOff\<close> is the offset of \<open>actionParams\<close>.\<close>

definition parseParam :: "u8 list \<Rightarrow> nat \<Rightarrow> u8 list \<Rightarrow> nat \<Rightarrow> nat \<Rightarrow> ParseError + RuntimeParam" where
  "parseParam d pOff tbl paramStart j =
     (let p = pOff + (paramStart + j) * sizeof_WBPActionParam;
          ty = rd8 d p;
          v = rd16 d (p + 2)
      in if ty > 3 then Inl InvalidParamType
         else Inr \<lparr>ptype = parseType ty,
                    intVal = (if parseType ty = P_INT \<or> parseType ty = P_BOOL then ucast v else 0),
                    floatVal = (if parseType ty = P_FLOAT then real (unat v) / 100 else 0),
                    strVal = (if parseType ty = P_STRING then readStringFromTable tbl v else [])\<rparr>)"

text \<open>One pass of the action loop; \<open>aOff\<close> is the offset of \<open>actions\<close>.\<close>

definition parseAction :: "u8 list \<Rightarrow> nat \<Rightarrow> nat \<Rightarrow> u8 list \<Rightarrow> nat \<Rightarrow> ParseError + RuntimeAction" where
  "parseAction d aOff pOff tbl i =
     (let p = aOff + i * sizeof_WBPAction;
          cap = readStringFromTable tbl (rd16 d p);
          paramCount = rd8 d (p + 2);
          paramStart = rd8 d (p + 3)
      in if cap = [] then Inl EmptyCapabilityId
         else if unat paramStart + unat paramCount > unat (h_actionParamCount d)
           then Inl ParamRangeOverflow
         else
           (case mapE (parseParam d pOff tbl (unat paramStart)) [0..<unat paramCount] of
              Inl e \<Rightarrow> Inl e
            | Inr ps \<Rightarrow> Inr \<lparr>capabilityId = cap, params = ps\<rparr>))"

text \<open>
  One pass of the rule loop. The inner loop tests the 32 bits of the mask against the
  number of conditions.
\<close>

definition parseRule :: "u8 list \<Rightarrow> nat \<Rightarrow> nat \<Rightarrow> ParseError + RuntimeRule" where
  "parseRule d off i =
     (let p = off + i * sizeof_WBPRule;
          cmask = rd32 d (p + 2);
          aStart = rd8 d (p + 6);
          aCount = rd8 d (p + 7)
      in if list_ex (\<lambda>c. bit cmask c \<and> c \<ge> unat (h_conditionCount d)) [0..<32]
           then Inl ConditionMaskOutOfRange
         else if unat aStart + unat aCount > unat (h_actionCount d) then Inl ActionRangeOverflow
         else Inr \<lparr>conditionMask = cmask, actionStartIdx = aStart, actionCount = aCount,
                    debounceMs = ucast (rd8 d (p + 8)) * 10,
                    cooldownMs = ucast (rd8 d (p + 9)) * 10,
                    lastTriggerMs = 0, lastConditionChangeMs = 0,
                    lastConditionState = False\<rparr>)"

type_synonym Tables =
  "RuntimeSignal list \<times> RuntimeCondition list \<times> RuntimeAction list \<times> RuntimeRule list"

definition parseRules :: "u8 list \<Rightarrow> ParseError + Tables" where
  "parseRules d =
     (case checkHeader d of
        Inl e \<Rightarrow> Inl e
      | Inr _ \<Rightarrow>
          let sOff = bodyOffset d;
              cOff = sOff + unat (h_signalCount d) * sizeof_WBPSignal;
              aOff = cOff + unat (h_conditionCount d) * sizeof_WBPCondition;
              pOff = aOff + unat (h_actionCount d) * sizeof_WBPAction;
              rOff = pOff + unat (h_actionParamCount d) * sizeof_WBPActionParam;
              tbl = take (unat (h_totalSize d) - unat (h_stringTableOffset d))
                      (drop (unat (h_stringTableOffset d)) d);
              sigs = map (parseSignal d sOff) [0..<unat (h_signalCount d)]
          in case mapE (parseCondition d cOff) [0..<unat (h_conditionCount d)] of
               Inl e \<Rightarrow> Inl e
             | Inr conds \<Rightarrow>
                 (case mapE (parseAction d aOff pOff tbl) [0..<unat (h_actionCount d)] of
                    Inl e \<Rightarrow> Inl e
                  | Inr acts \<Rightarrow>
                      (case mapE (parseRule d rOff) [0..<unat (h_ruleCount d)] of
                         Inl e \<Rightarrow> Inl e
                       | Inr rls \<Rightarrow> Inr (sigs, conds, acts, rls))))"

section \<open>Engine.h: the engine state\<close>

text \<open>
  \<open>signalMap_\<close> maps a CAN id to pointers into \<open>signals_\<close>; the model keeps the
  indices of the elements pointed to. \<open>handlers_\<close> maps a capability id to a callback:
  the model keeps the set of registered ids, and a call of a handler appears in the
  output of \<open>evaluateRules\<close>. \<open>capabilityMeta_\<close> is read by the profile serializer
  only and is left out.
\<close>

record Engine =
  signals :: "RuntimeSignal list"
  conditions :: "RuntimeCondition list"
  actions :: "RuntimeAction list"
  rules :: "RuntimeRule list"
  rulesetBinary :: "u8 list"
  rulesetCRC :: u32
  signalMap :: "u32 \<rightharpoonup> nat list"
  handlers :: "String set"
  debugMode :: bool
  debugSignals :: "RuntimeSignal list"
  debugSignalMap :: "u32 \<rightharpoonup> nat list"
  debugDirtyFlags :: "bool list"
  debugDirtyQueue :: "nat list"
  debugQueueHead :: nat
  rulesTriggered :: u32
  unknownCapability :: String

text \<open>The engine after its constructor.\<close>

definition newEngine :: Engine where
  "newEngine =
     \<lparr>signals = [], conditions = [], actions = [], rules = [], rulesetBinary = [],
      rulesetCRC = 0, signalMap = Map.empty, handlers = {}, debugMode = False,
      debugSignals = [], debugSignalMap = Map.empty, debugDirtyFlags = [],
      debugDirtyQueue = [], debugQueueHead = 0, rulesTriggered = 0,
      unknownCapability = []\<rparr>"

text \<open>\<open>map[key].push_back(idx)\<close>: a key not yet in the map starts with the empty vector.\<close>

definition pushIndex :: "(u32 \<rightharpoonup> nat list) \<Rightarrow> u32 \<Rightarrow> nat \<Rightarrow> (u32 \<rightharpoonup> nat list)" where
  "pushIndex m k idx = m(k \<mapsto> (case m k of None \<Rightarrow> [] | Some l \<Rightarrow> l) @ [idx])"

definition buildSignalMap :: "RuntimeSignal list \<Rightarrow> (u32 \<rightharpoonup> nat list)" where
  "buildSignalMap sigs =
     fold (\<lambda>idx m. pushIndex m (canId (sigs ! idx)) idx) [0..<length sigs] Map.empty"

section \<open>Engine.cpp: ruleset installation\<close>

text \<open>The loop over \<open>newActions\<close>: the id of the first action without a handler.\<close>

fun firstUnknown :: "String set \<Rightarrow> RuntimeAction list \<Rightarrow> String option" where
  "firstUnknown h [] = None"
| "firstUnknown h (a # as) =
     (if capabilityId a \<notin> h then Some (capabilityId a) else firstUnknown h as)"

definition loadRuleset :: "u8 list \<Rightarrow> Engine \<Rightarrow> bool \<times> Engine" where
  "loadRuleset data e =
     (case parseRules data of
        Inl err \<Rightarrow> (False, e)
      | Inr (newSignals, newConditions, newActions, newRules) \<Rightarrow>
          (case firstUnknown (handlers e) newActions of
             Some c \<Rightarrow> (False, e\<lparr>unknownCapability := c\<rparr>)
           | None \<Rightarrow>
               (True,
                e\<lparr>unknownCapability := [],
                  signals := newSignals,
                  conditions := newConditions,
                  actions := newActions,
                  rules := newRules,
                  signalMap := buildSignalMap newSignals,
                  rulesetBinary := data,
                  rulesetCRC := calculateCRC32 data\<rparr>)))"

definition getUnknownCapability :: "Engine \<Rightarrow> String" where
  "getUnknownCapability e = unknownCapability e"

definition clearRuleset :: "Engine \<Rightarrow> Engine" where
  "clearRuleset e =
     e\<lparr>signals := [], conditions := [], actions := [], rules := [],
       signalMap := Map.empty, rulesetBinary := [], rulesetCRC := 0, rulesTriggered := 0\<rparr>"

definition registerCapability :: "String \<Rightarrow> Engine \<Rightarrow> Engine" where
  "registerCapability cid e = e\<lparr>handlers := insert cid (handlers e)\<rparr>"

section \<open>Engine.cpp: CAN frames and the debug overlay\<close>

text \<open>The four assignments to a signal that a frame with its CAN id causes.\<close>

definition updateSignal :: "u8 list \<Rightarrow> u32 \<Rightarrow> RuntimeSignal \<Rightarrow> RuntimeSignal" where
  "updateSignal data now sig =
     sig\<lparr>lastValue := value sig, value := decodeSignal sig data,
         lastUpdateMs := now, everSet := True\<rparr>"

text \<open>
  The literal \<open>0.01f\<close>, taken as the decimal fraction it is written as (binary32 holds
  a value slightly below it).
\<close>

definition debugThreshold :: float where
  "debugThreshold = 1 / 100"

text \<open>
  One pass of the loop over the overlay indices of a CAN id: the state is the overlay
  table, the dirty flags and the dirty queue.
\<close>

definition debugStep ::
  "u8 list \<Rightarrow> u32 \<Rightarrow> nat \<Rightarrow> RuntimeSignal list \<times> bool list \<times> nat list \<Rightarrow>
   RuntimeSignal list \<times> bool list \<times> nat list" where
  "debugStep data now idx st =
     (case st of (sigs, flags, queue) \<Rightarrow>
        let sig = updateSignal data now (sigs ! idx);
            sigs' = sigs[idx := sig]
        in if \<bar>value sig - lastDebugValue sig\<bar> > debugThreshold \<and>
              \<not> flags ! idx \<and> length queue < 64
           then (sigs', flags[idx := True], queue @ [idx])
           else (sigs', flags, queue))"

text \<open>\<open>now\<close> is the value of \<open>millis()\<close> at the call.\<close>

definition processCanFrame :: "CanFrame \<Rightarrow> u32 \<Rightarrow> Engine \<Rightarrow> Engine" where
  "processCanFrame frame now e =
     (let e1 =
        (case signalMap e (fid frame) of
           None \<Rightarrow> e
         | Some l \<Rightarrow>
             e\<lparr>signals :=
                 fold (\<lambda>idx sigs. sigs[idx := updateSignal (fdata frame) now (sigs ! idx)])
                   l (signals e)\<rparr>)
      in if debugMode e1 then
           (case debugSignalMap e1 (fid frame) of
              None \<Rightarrow> e1
            | Some l \<Rightarrow>
                (case fold (debugStep (fdata frame) now) l
                        (debugSignals e1, debugDirtyFlags e1, debugDirtyQueue e1) of
                   (sigs, flags, queue) \<Rightarrow>
                     e1\<lparr>debugSignals := sigs, debugDirtyFlags := flags,
                        debugDirtyQueue := queue\<rparr>))
         else e1)"

text \<open>
  \<open>loadDebugSignals\<close> splits its text at commas and colons and converts the fields
  with the Arduino \<open>String\<close> library, which is not part of the repository; the model
  takes the table \<open>newSignals\<close> that the text denotes and installs it as the source
  does.
\<close>

definition loadDebugSignals :: "RuntimeSignal list \<Rightarrow> Engine \<Rightarrow> nat \<times> Engine" where
  "loadDebugSignals newSignals e =
     (length newSignals,
      e\<lparr>debugSignals := newSignals,
        debugSignalMap := buildSignalMap newSignals,
        debugDirtyFlags := replicate (length newSignals) False,
        debugDirtyQueue := [],
        debugQueueHead := 0,
        debugMode := True\<rparr>)"

definition clearDebugSignals :: "Engine \<Rightarrow> Engine" where
  "clearDebugSignals e =
     e\<lparr>debugSignals := [], debugSignalMap := Map.empty, debugDirtyFlags := [],
       debugDirtyQueue := [], debugQueueHead := 0, debugMode := False\<rparr>"

definition setDebugMode :: "bool \<Rightarrow> Engine \<Rightarrow> Engine" where
  "setDebugMode enabled e = e\<lparr>debugMode := enabled\<rparr>"

text \<open>
  \<open>popDirtyDebugSignal\<close> returns its result, the signal written to \<open>outSignal\<close> (if
  any) and the new state.
\<close>

definition popDirtyDebugSignal :: "Engine \<Rightarrow> bool \<times> RuntimeSignal option \<times> Engine" where
  "popDirtyDebugSignal e =
     (if debugQueueHead e \<ge> length (debugDirtyQueue e) then
        (False, None,
         if debugQueueHead e > 0 then e\<lparr>debugDirtyQueue := [], debugQueueHead := 0\<rparr> else e)
      else
        let idx = debugDirtyQueue e ! debugQueueHead e;
            e1 = e\<lparr>debugQueueHead := debugQueueHead e + 1\<rparr>
        in if idx < length (debugSignals e) then
             (True, Some (debugSignals e ! idx),
              e1\<lparr>debugDirtyFlags := (debugDirtyFlags e)[idx := False],
                 debugSignals := (debugSignals e)
                   [idx := (debugSignals e ! idx)\<lparr>lastDebugValue := value (debugSignals e ! idx)\<rparr>]\<rparr>)
           else (False, None, e1))"

text \<open>The entries of the dirty queue that are still to be popped.\<close>

definition pendingDirty :: "Engine \<Rightarrow> nat list" where
  "pendingDirty e = drop (debugQueueHead e) (debugDirtyQueue e)"

section \<open>Engine.cpp: rule evaluation\<close>

text \<open>
  An access to a vector element is written \<open>elemAt\<close>: outside the vector, where the
  source has undefined behaviour, it yields the fault \<open>OutOfBounds\<close>.
\<close>

datatype EngineFault = OutOfBounds

definition elemAt :: "'a list \<Rightarrow> nat \<Rightarrow> EngineFault + 'a" where
  "elemAt xs i = (if i < length xs then Inr (xs ! i) else Inl OutOfBounds)"

text \<open>The literal \<open>0.0001f\<close>, taken as the decimal fraction it is written as.\<close>

definition EPSILON :: float where
  "EPSILON = 1 / 10000"

definition compareOp :: "Operation \<Rightarrow> float \<Rightarrow> float \<Rightarrow> float \<Rightarrow> bool" where
  "compareOp op val v1 v2 =
     (case op of
        EQ \<Rightarrow> \<bar>val - v1\<bar> < EPSILON
      | NE \<Rightarrow> \<bar>val - v1\<bar> \<ge> EPSILON
      | GT \<Rightarrow> val > v1
      | GE \<Rightarrow> val \<ge> v1
      | LT \<Rightarrow> val < v1
      | LE \<Rightarrow> val \<le> v1
      | WITHIN \<Rightarrow> val \<ge> v1 \<and> val \<le> v2
      | OUTSIDE \<Rightarrow> val < v1 \<or> val > v2
      | HOLD \<Rightarrow> False)"

text \<open>\<open>evaluateCondition\<close> returns its result and the condition with its hold state.\<close>

definition evaluateCondition ::
  "RuntimeSignal list \<Rightarrow> RuntimeCondition \<Rightarrow> u32 \<Rightarrow> EngineFault + bool \<times> RuntimeCondition" where
  "evaluateCondition sigs cond nowMs =
     (if unat (signalIdx cond) \<ge> length sigs then Inr (False, cond)
      else
        case elemAt sigs (unat (signalIdx cond)) of
          Inl f \<Rightarrow> Inl f
        | Inr sig \<Rightarrow>
            if \<not> everSet sig then Inr (False, cond)
            else if operation cond = HOLD then
              (if \<bar>value sig\<bar> > EPSILON then
                 let cond' = (if \<not> holdActive cond
                              then cond\<lparr>holdActive := True, holdStartMs := nowMs\<rparr>
                              else cond)
                 in Inr (nowMs - holdStartMs cond' \<ge> holdMs cond', cond')
               else Inr (False, cond\<lparr>holdActive := False, holdStartMs := 0\<rparr>))
            else Inr (compareOp (operation cond) (value sig) (value1 cond) (value2 cond), cond))"

text \<open>
  The loop over the conditions of a rule, from index \<open>c\<close> on: it runs while
  \<open>c < conditions_.size() && c < 32\<close>, evaluates the conditions whose mask bit is set
  and stops at the first that is false.
\<close>

function allMetLoop ::
  "u32 \<Rightarrow> RuntimeSignal list \<Rightarrow> u32 \<Rightarrow> RuntimeCondition list \<Rightarrow> nat \<Rightarrow>
   EngineFault + bool \<times> RuntimeCondition list" where
  "allMetLoop nowMs sigs cmask conds c =
     (if c < length conds \<and> c < 32 then
        (if bit cmask c then
           (case elemAt conds c of
              Inl f \<Rightarrow> Inl f
            | Inr cond \<Rightarrow>
                (case evaluateCondition sigs cond nowMs of
                   Inl f \<Rightarrow> Inl f
                 | Inr (res, cond') \<Rightarrow>
                     if \<not> res then Inr (False, conds[c := cond'])
                     else allMetLoop nowMs sigs cmask (conds[c := cond']) (c + 1)))
         else allMetLoop nowMs sigs cmask conds (c + 1))
      else Inr (True, conds))"
  by pat_completeness auto
termination
  by (relation "measure (\<lambda>(nowMs, sigs, cmask, conds, c). 32 - c)") auto

declare allMetLoop.simps [simp del]

text \<open>
  \<open>executeAction\<close>: nothing happens without a handler; otherwise the handler is called
  with the map \<open>p0, p1, ..\<close> of the parameters of the action. The call is recorded as
  the action it was made for.
\<close>

definition executeAction :: "String set \<Rightarrow> RuntimeAction \<Rightarrow> RuntimeAction list" where
  "executeAction h action = (if capabilityId action \<in> h then [action] else [])"

text \<open>
  The loop over the actions of a rule, from index \<open>a\<close> on, while
  \<open>a < actionStartIdx + actionCount && a < actions_.size()\<close>; \<open>calls\<close> collects the
  handler calls.
\<close>

function execActions ::
  "String set \<Rightarrow> RuntimeAction list \<Rightarrow> nat \<Rightarrow> nat \<Rightarrow> RuntimeAction list \<Rightarrow>
   EngineFault + RuntimeAction list" where
  "execActions h acts a stop calls =
     (if a < stop \<and> a < length acts then
        (case elemAt acts a of
           Inl f \<Rightarrow> Inl f
         | Inr act \<Rightarrow> execActions h acts (a + 1) stop (calls @ executeAction h act))
      else Inr calls)"
  by pat_completeness auto
termination
  by (relation "measure (\<lambda>(h, acts, a, stop, calls). stop - a)") auto

declare execActions.simps [simp del]

text \<open>
  What one pass of the rule loop did: the value of \<open>allMet\<close>, whether the rule fired,
  and the handler calls it made, in order.
\<close>

record RuleOutcome =
  ro_allMet :: bool
  ro_fired :: bool
  ro_calls :: "RuntimeAction list"

text \<open>
  The body of the rule loop behind the condition loop: the change tracking, the
  debounce and cooldown tests on \<open>uint32_t\<close> differences, and the update on firing.
  The result is the rule and whether it fires.
\<close>

definition ruleTick :: "u32 \<Rightarrow> bool \<Rightarrow> RuntimeRule \<Rightarrow> RuntimeRule \<times> bool" where
  "ruleTick nowMs allMet rule =
     (let rule1 = (if allMet \<noteq> lastConditionState rule
                   then rule\<lparr>lastConditionState := allMet, lastConditionChangeMs := nowMs\<rparr>
                   else rule)
      in if \<not> allMet then (rule1, False)
         else
           let debounced = (nowMs - lastConditionChangeMs rule1 \<ge> ucast (debounceMs rule1));
               cooldownOk = (nowMs - lastTriggerMs rule1 \<ge> ucast (cooldownMs rule1))
           in if debounced \<and> cooldownOk then (rule1\<lparr>lastTriggerMs := nowMs\<rparr>, True)
              else (rule1, False))"

text \<open>One pass of the rule loop.\<close>

definition evalRule ::
  "u32 \<Rightarrow> RuntimeSignal list \<Rightarrow> RuntimeAction list \<Rightarrow> String set \<Rightarrow>
   RuntimeCondition list \<Rightarrow> RuntimeRule \<Rightarrow>
   EngineFault + RuntimeRule \<times> RuntimeCondition list \<times> RuleOutcome" where
  "evalRule nowMs sigs acts h conds rule =
     (case allMetLoop nowMs sigs (conditionMask rule) conds 0 of
        Inl f \<Rightarrow> Inl f
      | Inr (allMet, conds') \<Rightarrow>
          (case ruleTick nowMs allMet rule of
             (rule', fired) \<Rightarrow>
               if fired then
                 (case execActions h acts (unat (actionStartIdx rule))
                         (unat (actionStartIdx rule) + unat (actionCount rule)) [] of
                    Inl f \<Rightarrow> Inl f
                  | Inr calls \<Rightarrow>
                      Inr (rule', conds',
                           \<lparr>ro_allMet = allMet, ro_fired = True, ro_calls = calls\<rparr>))
               else Inr (rule', conds',
                         \<lparr>ro_allMet = allMet, ro_fired = False, ro_calls = []\<rparr>)))"

text \<open>
  The loop over \<open>rules_\<close>: every rule is updated in place, the conditions carry their
  hold state from one rule to the next, and \<open>rulesTriggered_\<close> counts the rules that
  fire.
\<close>

fun evalRulesLoop ::
  "u32 \<Rightarrow> RuntimeSignal list \<Rightarrow> RuntimeAction list \<Rightarrow> String set \<Rightarrow>
   RuntimeRule list \<Rightarrow> RuntimeCondition list \<Rightarrow> u32 \<Rightarrow>
   EngineFault + RuntimeRule list \<times> RuntimeCondition list \<times> u32 \<times> RuleOutcome list" where
  "evalRulesLoop nowMs sigs acts h [] conds trig = Inr ([], conds, trig, [])"
| "evalRulesLoop nowMs sigs acts h (rule # rest) conds trig =
     (case evalRule nowMs sigs acts h conds rule of
        Inl f \<Rightarrow> Inl f
      | Inr (rule', conds', out) \<Rightarrow>
          (case evalRulesLoop nowMs sigs acts h rest conds'
                  (if ro_fired out then trig + 1 else trig) of
             Inl f \<Rightarrow> Inl f
           | Inr (rest', conds'', trig', outs) \<Rightarrow>
               Inr (rule' # rest', conds'', trig', out # outs)))"

text \<open>\<open>evaluateRules\<close>; \<open>nowMs\<close> is the value of \<open>millis()\<close> at the call.\<close>

definition evaluateRules :: "Engine \<Rightarrow> u32 \<Rightarrow> EngineFault + Engine \<times> RuleOutcome list" where
  "evaluateRules e nowMs =
     (case evalRulesLoop nowMs (signals e) (actions e) (handlers e) (rules e)
             (conditions e) (rulesTriggered e) of
        Inl f \<Rightarrow> Inl f
      | Inr (rules', conds', trig', outs) \<Rightarrow>
          Inr (e\<lparr>rules := rules', conditions := conds', rulesTriggered := trig'\<rparr>, outs))"

section \<open>Histories of the main loop\<close>

text \<open>
  The loop of the controller hands CAN frames to \<open>processCanFrame\<close> and calls
  \<open>evaluateRules\<close>; each call reads the clock. A history is the list of these calls.
  Running it yields, for every call of \<open>evaluateRules\<close>, the clock value, the outcome
  of every rule and the engine after the call.
\<close>

datatype Event = CanRx CanFrame u32 | EvalRules u32

record EvalRecord =
  at_ms :: u32
  outcomes :: "RuleOutcome list"
  engine_after :: Engine

fun runEvents ::
  "Event list \<Rightarrow> Engine \<times> EvalRecord list \<Rightarrow> EngineFault + Engine \<times> EvalRecord list" where
  "runEvents [] st = Inr st"
| "runEvents (CanRx frame now # evs) (e, hist) =
     runEvents evs (processCanFrame frame now e, hist)"
| "runEvents (EvalRules now # evs) (e, hist) =
     (case evaluateRules e now of
        Inl f \<Rightarrow> Inl f
      | Inr (e', outs) \<Rightarrow>
          runEvents evs (e', hist @ [\<lparr>at_ms = now, outcomes = outs, engine_after = e'\<rparr>]))"

text \<open>Rule \<open>i\<close> at call \<open>k\<close> of a history: whether its conditions were met, whether it fired.\<close>

definition metAt :: "EvalRecord list \<Rightarrow> nat \<Rightarrow> nat \<Rightarrow> bool" where
  "metAt hist i k = ro_allMet (outcomes (hist ! k) ! i)"

definition firedAt :: "EvalRecord list \<Rightarrow> nat \<Rightarrow> nat \<Rightarrow> bool" where
  "firedAt hist i k = ro_fired (outcomes (hist ! k) ! i)"

definition timeAt :: "EvalRecord list \<Rightarrow> nat \<Rightarrow> nat" where
  "timeAt hist k = unat (at_ms (hist ! k))"

text \<open>The engine before call \<open>k\<close> of a history that starts from \<open>e0\<close>, as far as the rules see it.\<close>

definition engineBefore :: "Engine \<Rightarrow> EvalRecord list \<Rightarrow> nat \<Rightarrow> Engine" where
  "engineBefore e0 hist k = (if k = 0 then e0 else engine_after (hist ! (k - 1)))"

text \<open>
  What the state of rule \<open>i\<close> records about a history: while its conditions are met, the
  call at which they became so; after it fired, the last call at which it did.
\<close>

definition ruleInv :: "nat \<Rightarrow> Engine \<Rightarrow> Engine \<Rightarrow> EvalRecord list \<Rightarrow> bool" where
  "ruleInv i e0 e hist \<longleftrightarrow>
     i < length (rules e) \<and>
     debounceMs (rules e ! i) = debounceMs (rules e0 ! i) \<and>
     cooldownMs (rules e ! i) = cooldownMs (rules e0 ! i) \<and>
     rulesTriggered e = rulesTriggered (engineBefore e0 hist (length hist)) \<and>
     (lastConditionState (rules e ! i) \<longrightarrow>
        (\<exists>j<length hist. lastConditionChangeMs (rules e ! i) = at_ms (hist ! j) \<and>
           (\<forall>m. j \<le> m \<and> m < length hist \<longrightarrow> metAt hist i m))) \<and>
     (\<forall>j<length hist. firedAt hist i j \<longrightarrow>
        (\<exists>j'. j \<le> j' \<and> j' < length hist \<and> lastTriggerMs (rules e ! i) = at_ms (hist ! j')))"

text \<open>The gating of a call \<open>k\<close> at which rule \<open>i\<close> fired.\<close>

definition gated :: "nat \<Rightarrow> Engine \<Rightarrow> EvalRecord list \<Rightarrow> nat \<Rightarrow> bool" where
  "gated i e0 hist k \<longleftrightarrow>
     (\<exists>j\<le>k. (\<forall>m. j \<le> m \<and> m \<le> k \<longrightarrow> metAt hist i m) \<and>
        timeAt hist j + unat (debounceMs (rules e0 ! i)) \<le> timeAt hist k) \<and>
     (\<forall>j<k. firedAt hist i j \<longrightarrow>
        timeAt hist j + unat (cooldownMs (rules e0 ! i)) \<le> timeAt hist k) \<and>
     lastTriggerMs (rules (engine_after (hist ! k)) ! i) = at_ms (hist ! k) \<and>
     rulesTriggered (engine_after (hist ! k)) =
       rulesTriggered (engineBefore e0 hist k) +
       of_nat (length (filter ro_fired (outcomes (hist ! k))))"

section \<open>W4RP.cpp: the status frame\<close>

text \<open>
  The members of \<open>Controller\<close> that \<open>sendStatus\<close> reads. The transport, the CAN bus,
  the storage and the stream state are left out.
\<close>

record Controller =
  engine :: Engine
  bootCount :: u16
  rulesMode :: u8

text \<open>\<open>%d\<close> and \<open>%lu\<close> of a number that is not negative: its decimal digits.\<close>

definition decDigit :: "nat \<Rightarrow> char" where
  "decDigit n = ''0123456789'' ! n"

function decimal :: "nat \<Rightarrow> string" where
  "decimal n = (if n < 10 then [decDigit n] else decimal (n div 10) @ [decDigit (n mod 10)])"
  by pat_completeness auto
termination
  by (relation "measure id") auto

declare decimal.simps [simp del]

text \<open>
  \<open>sendStatus\<close>: nothing without a connection; otherwise the text that \<open>snprintf\<close>
  leaves in the buffer of 128 bytes, which is handed to the transport. \<open>isConn\<close>
  is the answer of \<open>transport_->isConnected()\<close> and \<open>ms\<close> the value of \<open>millis()\<close>.
  The signal count is printed twice, as the second and as the fourth number.
\<close>

definition sendStatus :: "bool \<Rightarrow> u32 \<Rightarrow> Controller \<Rightarrow> string option" where
  "sendStatus isConn ms c =
     (if \<not> isConn then None
      else Some (take 127
        (''S:'' @ decimal (unat (rulesMode c)) @
         '':'' @ decimal (length (signals (engine c))) @
         '':'' @ decimal (length (rules (engine c))) @
         '':'' @ decimal (length (signals (engine c))) @
         '':'' @ decimal (unat ms) @
         '':'' @ decimal (unat (bootCount c)))))"

section \<open>Reachable engine states\<close>

text \<open>
  The states an engine can be in: the constructed engine, and every state that a
  public member function of \<open>Engine\<close> leaves behind when called on a reachable state,
  with any arguments and at any clock value.
\<close>

inductive reachable :: "Engine \<Rightarrow> bool" where
  r_new: "reachable newEngine"
| r_loadRuleset: "reachable e \<Longrightarrow> reachable (snd (loadRuleset data e))"
| r_clearRuleset: "reachable e \<Longrightarrow> reachable (clearRuleset e)"
| r_registerCapability: "reachable e \<Longrightarrow> reachable (registerCapability cid e)"
| r_processCanFrame: "reachable e \<Longrightarrow> reachable (processCanFrame frame now e)"
| r_evaluateRules:
    "reachable e \<Longrightarrow> evaluateRules e now = Inr (e', outs) \<Longrightarrow> reachable e'"
| r_loadDebugSignals: "reachable e \<Longrightarrow> reachable (snd (loadDebugSignals newSignals e))"
| r_clearDebugSignals: "reachable e \<Longrightarrow> reachable (clearDebugSignals e)"
| r_setDebugMode: "reachable e \<Longrightarrow> reachable (setDebugMode enabled e)"
| r_popDirtyDebugSignal: "reachable e \<Longrightarrow> reachable (snd (snd (popDirtyDebugSignal e)))"

text \<open>
  The invariant of the dirty queue, on the overlay table, the flags and the queue, for
  a queue head \<open>head\<close>: one flag per signal, at most 64 entries, and the entries from
  the head on are distinct indices of the table whose flags are set.
\<close>

definition queueInv :: "nat \<Rightarrow> RuntimeSignal list \<times> bool list \<times> nat list \<Rightarrow> bool" where
  "queueInv head st =
     (case st of (sigs, flags, queue) \<Rightarrow>
        length flags = length sigs \<and> head \<le> length queue \<and> length queue \<le> 64 \<and>
        distinct (drop head queue) \<and>
        (\<forall>idx\<in>set (drop head queue). idx < length sigs \<and> flags ! idx))"

definition debugInv :: "Engine \<Rightarrow> bool" where
  "debugInv e \<longleftrightarrow>
     queueInv (debugQueueHead e) (debugSignals e, debugDirtyFlags e, debugDirtyQueue e) \<and>
     (\<forall>k l. debugSignalMap e k = Some l \<longrightarrow> (\<forall>idx\<in>set l. idx < length (debugSignals e)))"

text \<open>
  What the loop over the overlay indices of a frame keeps, relative to the table
  \<open>sigs0\<close> and the queue \<open>queue0\<close> at its start: the queue only grows at its end, the
  definitions and the last reported values of the signals stay, and every index added
  belongs to a signal whose value decoded from the frame is more than the threshold
  away from its last reported value.
\<close>

definition enqueuedOk ::
  "u8 list \<Rightarrow> RuntimeSignal list \<Rightarrow> nat list \<Rightarrow>
   RuntimeSignal list \<times> bool list \<times> nat list \<Rightarrow> bool" where
  "enqueuedOk data sigs0 queue0 st =
     (case st of (sigs, flags, queue) \<Rightarrow>
        length sigs = length sigs0 \<and>
        (\<forall>i<length sigs0. decodeSignal (sigs ! i) data = decodeSignal (sigs0 ! i) data \<and>
           lastDebugValue (sigs ! i) = lastDebugValue (sigs0 ! i)) \<and>
        (\<exists>new. queue = queue0 @ new \<and>
           (\<forall>idx\<in>set new. idx < length sigs0 \<and>
              \<bar>decodeSignal (sigs0 ! idx) data - lastDebugValue (sigs0 ! idx)\<bar> > debugThreshold)))"

section \<open>ESP32OTAService.cpp: the full firmware update\<close>

datatype OTAStatus =
    IDLE | RECEIVING | VALIDATING | APPLYING | SUCCESS
  | ERROR_SPACE | ERROR_CRC | ERROR_SIGNATURE | ERROR_FLASH | ERROR_TIMEOUT

record OTAProgress =
  bytesReceived :: u32
  totalBytes :: u32
  percentage :: u8

text \<open>Of \<open>esp_partition_t\<close> the service reads the size only.\<close>

record esp_partition_t =
  part_size :: u32

text \<open>
  The members of the service that the full update touches, without the trailing
  underscore; \<open>expectedSize_\<close> is \<open>otaExpectedSize\<close>. The two callbacks are taken as
  set: \<open>progressLog\<close> and \<open>completeLog\<close> hold the arguments of their calls, oldest first.
\<close>

record ESP32OTAService =
  status :: OTAStatus
  otaHandle :: u32
  updatePartition :: "esp_partition_t option"
  otaExpectedSize :: u32
  expectedCRC :: u32
  receivedBytes :: u32
  calculatedCRC :: u32
  isDelta :: bool
  progressLog :: "OTAProgress list"
  completeLog :: "OTAStatus list"

text \<open>The member initialisers of the class.\<close>

definition newOTAService :: ESP32OTAService where
  "newOTAService =
     \<lparr>status = IDLE, otaHandle = 0, updatePartition = None, otaExpectedSize = 0,
      expectedCRC = 0, receivedBytes = 0, calculatedCRC = 0, isDelta = False,
      progressLog = [], completeLog = []\<rparr>"

definition getStatus :: "ESP32OTAService \<Rightarrow> OTAStatus" where
  "getStatus s = status s"

definition notifyProgress :: "ESP32OTAService \<Rightarrow> ESP32OTAService" where
  "notifyProgress s =
     (if otaExpectedSize s > 0 then
        s\<lparr>progressLog := progressLog s @
            [\<lparr>bytesReceived = receivedBytes s, totalBytes = otaExpectedSize s,
              percentage = ucast (receivedBytes s * 100 div otaExpectedSize s)\<rparr>]\<rparr>
      else s)"

definition notifyComplete :: "OTAStatus \<Rightarrow> ESP32OTAService \<Rightarrow> ESP32OTAService" where
  "notifyComplete st s = s\<lparr>status := st, completeLog := completeLog s @ [st]\<rparr>"

text \<open>
  The calls into the ESP-IDF are parameters: \<open>nextPartition\<close> is what
  \<open>esp_ota_get_next_update_partition\<close> returns (\<open>None\<close> for the null pointer) and
  \<open>beginResult\<close> is the handle that \<open>esp_ota_begin\<close> stores, \<open>None\<close> when it reports an
  error.
\<close>

definition startFirmwareUpdate ::
  "esp_partition_t option \<Rightarrow> u32 option \<Rightarrow> u32 \<Rightarrow> u32 \<Rightarrow> ESP32OTAService \<Rightarrow>
   bool \<times> ESP32OTAService" where
  "startFirmwareUpdate nextPartition beginResult expSize crc32 s =
     (if status s \<noteq> IDLE then (False, s)
      else
        let s1 = s\<lparr>updatePartition := nextPartition\<rparr> in
        case nextPartition of
          None \<Rightarrow> (False, s1)
        | Some p \<Rightarrow>
            if expSize > part_size p then (False, s1)
            else
              (case beginResult of
                 None \<Rightarrow> (False, s1)
               | Some h \<Rightarrow>
                   (True,
                    s1\<lparr>otaHandle := h, otaExpectedSize := expSize, expectedCRC := crc32,
                       receivedBytes := 0, calculatedCRC := 0, isDelta := False,
                       status := RECEIVING\<rparr>)))"

text \<open>
  \<open>writeOk\<close> tells whether \<open>esp_ota_write\<close> returns \<open>ESP_OK\<close>. The chunk is the list
  \<open>data\<close>, and \<open>len\<close> is its length as a \<open>size_t\<close>, which has 32 bits on the ESP32: the
  sum \<open>receivedBytes_ + len\<close> wraps at \<open>2 ^ 32\<close>.
\<close>

definition writeFirmwareChunk ::
  "bool \<Rightarrow> u8 list \<Rightarrow> ESP32OTAService \<Rightarrow> bool \<times> ESP32OTAService" where
  "writeFirmwareChunk writeOk data s =
     (if status s \<noteq> RECEIVING \<or> isDelta s then (False, s)
      else
        let len = (of_nat (length data) :: u32) in
        if receivedBytes s + len > otaExpectedSize s then
          (False, notifyComplete ERROR_SPACE (s\<lparr>status := ERROR_SPACE\<rparr>))
        else if \<not> writeOk then
          (False, notifyComplete ERROR_FLASH (s\<lparr>status := ERROR_FLASH\<rparr>))
        else
          (True,
           notifyProgress
             (s\<lparr>receivedBytes := receivedBytes s + len,
                 calculatedCRC := esp_crc32_le (calculatedCRC s) data\<rparr>)))"

text \<open>
  \<open>endOk\<close> and \<open>bootOk\<close> tell whether \<open>esp_ota_end\<close> and \<open>esp_ota_set_boot_partition\<close>
  return \<open>ESP_OK\<close>.
\<close>

definition finalizeFirmwareUpdate ::
  "bool \<Rightarrow> bool \<Rightarrow> ESP32OTAService \<Rightarrow> bool \<times> ESP32OTAService" where
  "finalizeFirmwareUpdate endOk bootOk s =
     (if status s \<noteq> RECEIVING \<or> isDelta s then (False, s)
      else
        let s1 = s\<lparr>status := VALIDATING\<rparr> in
        if receivedBytes s1 \<noteq> otaExpectedSize s1 then
          (False, notifyComplete ERROR_SPACE (s1\<lparr>status := ERROR_SPACE\<rparr>))
        else if calculatedCRC s1 \<noteq> expectedCRC s1 then
          (False, notifyComplete ERROR_CRC (s1\<lparr>status := ERROR_CRC\<rparr>))
        else
          let s2 = s1\<lparr>otaHandle := 0\<rparr> in
          if \<not> endOk then
            (False, notifyComplete ERROR_FLASH (s2\<lparr>status := ERROR_FLASH\<rparr>))
          else if \<not> bootOk then
            (False, notifyComplete ERROR_FLASH (s2\<lparr>status := ERROR_FLASH\<rparr>))
          else (True, notifyComplete SUCCESS (s2\<lparr>status := SUCCESS\<rparr>)))"

text \<open>
  The states of a full session: \<open>fullSession N C bs s\<close> holds when \<open>s\<close> is the state
  after a call of \<open>startFirmwareUpdate\<close> with the size \<open>N\<close> and the CRC \<open>C\<close> that returned
  true, followed by calls of \<open>writeFirmwareChunk\<close> that all returned true and whose chunks
  make up \<open>bs\<close>. The bytes sent stay below \<open>2 ^ 32\<close> in total.
\<close>

inductive fullSession :: "u32 \<Rightarrow> u32 \<Rightarrow> u8 list \<Rightarrow> ESP32OTAService \<Rightarrow> bool" where
  fs_start:
    "startFirmwareUpdate nextPartition beginResult N C s0 = (True, s) \<Longrightarrow>
     fullSession N C [] s"
| fs_write:
    "fullSession N C bs s \<Longrightarrow> length bs + length data < 2 ^ 32 \<Longrightarrow>
     writeFirmwareChunk writeOk data s = (True, s') \<Longrightarrow>
     fullSession N C (bs @ data) s'"

section \<open>Sample data\<close>

text \<open>
  A condition on signal 5, a rule that selects all 32 conditions and asks for nine
  actions from index 0, and an engine that holds them with no signal and one action.
\<close>

definition demoCondition :: RuntimeCondition where
  "demoCondition =
     \<lparr>signalIdx = 5, operation = GT, value1 = 1, value2 = 0, holdMs = 0,
      holdStartMs = 0, holdActive = False, lastResult = False\<rparr>"

definition demoRule :: RuntimeRule where
  "demoRule =
     \<lparr>conditionMask = 0xFFFFFFFF, actionStartIdx = 0, actionCount = 9,
      debounceMs = 0, cooldownMs = 0, lastTriggerMs = 0, lastConditionChangeMs = 0,
      lastConditionState = False\<rparr>"

definition demoEngine :: Engine where
  "demoEngine =
     newEngine\<lparr>conditions := [demoCondition], rules := [demoRule],
       actions := [\<lparr>capabilityId = [0x61], params = []\<rparr>], handlers := {[0x61]}\<rparr>"

text \<open>
  A sample for the gating: one signal with the value 5, one condition \<open>value > 1\<close>,
  one action for the registered capability \<open>a\<close>, one rule on the condition with that
  action, a debounce of 20 ms and a cooldown of 50 ms, evaluated at 100, 110, 120, 130
  and 170 ms.
\<close>

definition gateAction :: RuntimeAction where
  "gateAction = \<lparr>capabilityId = [0x61], params = []\<rparr>"

definition gateEngine :: Engine where
  "gateEngine =
     newEngine\<lparr>
       signals := [(mkSignal 0x100 0 8 False False 1 0)\<lparr>value := 5, everSet := True\<rparr>],
       conditions := [demoCondition\<lparr>signalIdx := 0\<rparr>],
       actions := [gateAction],
       rules := [demoRule\<lparr>conditionMask := 1, actionCount := 1, debounceMs := 20,
                            cooldownMs := 50\<rparr>],
       handlers := {[0x61]}\<rparr>"

definition gateHistory :: "Event list" where
  "gateHistory = [EvalRules 100, EvalRules 110, EvalRules 120, EvalRules 130, EvalRules 170]"

text \<open>
  A ruleset container of 88 bytes: two 8-bit signals on CAN id \<open>0x100\<close> (start bits 0
  and 8, factor 1, offset 0), one condition \<open>WITHIN\<close> on signal 0 with the serialized
  values 10 and 5, one action for the capability \<open>a\<close> without parameters, one rule on
  condition 0 with that action, and the string table \<open>a\\0\<close>.
\<close>

definition sampleRuleset :: "u8 list" where
  "sampleRuleset =
     [
      0x02, 0x57, 0xDE, 0xC0, 0x02, 0x00, 0x58, 0x00, 0x02, 0x01, 0x01, 0x01, 0x00,
      0x00, 0x00, 0x00, 0x56, 0x00, 0x00, 0x00, 0xBF, 0x00, 0x8A, 0x57, 0x00, 0x01,
      0x00, 0x00, 0x00, 0x00, 0x08, 0x00, 0x00, 0x00, 0x80, 0x3F, 0x00, 0x00, 0x00,
      0x00, 0x00, 0x01, 0x00, 0x00, 0x08, 0x00, 0x08, 0x00, 0x00, 0x00, 0x80, 0x3F,
      0x00, 0x00, 0x00, 0x00, 0x00, 0x06, 0x00, 0x00, 0x00, 0x00, 0x20, 0x41, 0x00,
      0x00, 0xA0, 0x40, 0x00, 0x00, 0x00, 0x00, 0x00, 0x00, 0x00, 0x00, 0x00, 0x00,
      0x01, 0x00, 0x00, 0x00, 0x00, 0x01, 0x00, 0x00, 0x61, 0x00]"

text \<open>
  A header of 24 bytes and no body: valid magic, version and size, string table offset
  0, and a CRC field of 1 (the CRC of the empty body is 0).
\<close>

definition badOffsetAndCrc :: "u8 list" where
  "badOffsetAndCrc =
     [
      0x02, 0x57, 0xDE, 0xC0, 0x02, 0x00, 0x18, 0x00, 0x00, 0x00, 0x00, 0x00, 0x00,
      0x00, 0x00, 0x00, 0x00, 0x00, 0x00, 0x00, 0x01, 0x00, 0x00, 0x00]"

text \<open>
  Inputs that fail one check of the header; all but the last also fail a later check.
  \<open>zeroHeader\<close>: 24 zero bytes, so a wrong magic, version 0 and declared size 0.
  \<open>oldVersionHeader\<close>: the magic, version 1 and declared size 0.
  \<open>smallSizeHeader\<close>: the magic, version 2, declared size 0 and a CRC field of 1.
  \<open>badOffsetHeader\<close>: a header without body whose CRC field 0 is the CRC of the empty
  body, with string table offset 0 and one signal announced.
  \<open>countsOverflowInput\<close>: 25 bytes, the body is the byte 0 and the CRC field its CRC
  \<open>0xD202EF8D\<close>, the string table offset is 24 and one signal is announced, which
  would end at byte 40.
\<close>

definition zeroHeader :: "u8 list" where
  "zeroHeader =
     [
      0x00, 0x00, 0x00, 0x00, 0x00, 0x00, 0x00, 0x00, 0x00, 0x00, 0x00, 0x00, 0x00,
      0x00, 0x00, 0x00, 0x00, 0x00, 0x00, 0x00, 0x00, 0x00, 0x00, 0x00]"

definition oldVersionHeader :: "u8 list" where
  "oldVersionHeader =
     [
      0x02, 0x57, 0xDE, 0xC0, 0x01, 0x00, 0x00, 0x00, 0x00, 0x00, 0x00, 0x00, 0x00,
      0x00, 0x00, 0x00, 0x00, 0x00, 0x00, 0x00, 0x00, 0x00, 0x00, 0x00]"

definition smallSizeHeader :: "u8 list" where
  "smallSizeHeader =
     [
      0x02, 0x57, 0xDE, 0xC0, 0x02, 0x00, 0x00, 0x00, 0x00, 0x00, 0x00, 0x00, 0x00,
      0x00, 0x00, 0x00, 0x00, 0x00, 0x00, 0x00, 0x01, 0x00, 0x00, 0x00]"

definition badOffsetHeader :: "u8 list" where
  "badOffsetHeader =
     [
      0x02, 0x57, 0xDE, 0xC0, 0x02, 0x00, 0x18, 0x00, 0x01, 0x00, 0x00, 0x00, 0x00,
      0x00, 0x00, 0x00, 0x00, 0x00, 0x00, 0x00, 0x00, 0x00, 0x00, 0x00]"

definition countsOverflowInput :: "u8 list" where
  "countsOverflowInput =
     [
      0x02, 0x57, 0xDE, 0xC0, 0x02, 0x00, 0x19, 0x00, 0x01, 0x00, 0x00, 0x00, 0x00,
      0x00, 0x00, 0x00, 0x18, 0x00, 0x00, 0x00, 0x8D, 0xEF, 0x02, 0xD2, 0x00]"

text \<open>A frame on CAN id \<open>0x100\<close> whose first payload byte is 7.\<close>

definition frame7 :: CanFrame where
  "frame7 =
     \<lparr>fid = 0x100, fdata = [7, 0, 0, 0, 0, 0, 0, 0], dlc = 8, extended = False, rtr = False\<rparr>"

text \<open>The engine with the capability \<open>a\<close> registered and the sample ruleset installed.\<close>

definition sampleEngine :: Engine where
  "sampleEngine = snd (loadRuleset sampleRuleset (registerCapability [0x61] newEngine))"

text \<open>
  A sample for the overlay: one 8-bit signal on CAN id \<open>0x100\<close> is watched, then the
  frame with the payload byte 7 arrives at 50 ms.
\<close>

definition watchEngine :: Engine where
  "watchEngine = snd (loadDebugSignals [mkSignal 0x100 0 8 False False 1 0] newEngine)"

definition watchEngineDirty :: Engine where
  "watchEngineDirty = processCanFrame frame7 50 watchEngine"

text \<open>
  Sample sessions of the full update: one byte is announced with the CRC
  \<open>0xD202EF8D\<close>, the CRC-32 of the byte 0, and the byte 0 is sent; in the second session
  the announced CRC is 0.
\<close>

definition otaPartition :: esp_partition_t where
  "otaPartition = \<lparr>part_size = 0x100000\<rparr>"

definition otaStarted :: ESP32OTAService where
  "otaStarted =
     snd (startFirmwareUpdate (Some otaPartition) (Some 1) 1 0xD202EF8D newOTAService)"

definition otaReceived :: ESP32OTAService where
  "otaReceived = snd (writeFirmwareChunk True [0] otaStarted)"

definition otaReceivedBadCrc :: ESP32OTAService where
  "otaReceivedBadCrc =
     snd (writeFirmwareChunk True [0]
       (snd (startFirmwareUpdate (Some otaPartition) (Some 1) 1 0 newOTAService)))"

section \<open>Signal extraction\<close>

text \<open>
  C5, the concrete scenario: a little-endian unsigned 16-bit signal at start bit 0 with
  factor 1 and offset 0 decodes the payload \<open>34 12 00 ..\<close> to 4660.
\<close>

lemma decode_le16_scenario:
  "decodeSignal (mkSignal 0x100 0 16 False False 1 0) [0x34, 0x12, 0, 0, 0, 0, 0, 0] = 4660"
proof -
  have "extractBits [0x34, 0x12, 0, 0, 0, 0, 0, 0] 0 16 False = 4660"
    by code_simp
  then show ?thesis
    by (simp add: decodeSignal_def mkSignal_def)
qed

text \<open>
  C5. A start bit of 2048 puts every bit of an 8-bit little-endian signal at byte index
  256, beyond the payload, so the claim has the raw value 0. The source narrows the
  byte index to \<open>uint8_t\<close> before it compares it with 8: index 256 becomes 0 and
  the signal reads payload byte 0.
\<close>

theorem C5_le_byte_index_narrowed:
  "extractBits [0xFF, 0, 0, 0, 0, 0, 0, 0] 2048 8 False = 255"
  by code_simp


lemma bit_payloadBit:
  "bit (payloadBit data b k) j \<longleftrightarrow> j = 0 \<and> bit (data ! b) k"
  by (auto simp add: payloadBit_def bit_ucast_iff bit_and_iff bit_drop_bit_eq bit_1_iff
      dest: bit_imp_le_length)

lemma beStep_nat:
  "beStep data start i r =
     (if unat start < i \<or> 64 \<le> unat start - i then r
      else push_bit 1 r OR payloadBit data ((unat start - i) div 8) ((unat start - i) mod 8))"
proof -
  define S where "S = unat start"
  have unf: "beStep data start i r =
      (if int S - int i < 0 \<or> int S - int i \<ge> 64 then r
       else push_bit 1 r OR payloadBit data (nat (int S - int i) div 8) (nat (int S - int i) mod 8))"
    unfolding beStep_def S_def Let_def ..
  show ?thesis
  proof (cases "S < i")
    case True
    then show ?thesis unfolding unf S_def [symmetric] by simp
  next
    case False
    then have e: "nat (int S - int i) = S - i" "(64 \<le> int S - int i) = (64 \<le> S - i)"
      "\<not> int S - int i < 0"
      by linarith+
    show ?thesis unfolding unf S_def [symmetric] e using False by simp
  qed
qed

lemma bit_shift_in:
  "bit (push_bit 1 (r::u64) OR payloadBit data b k) j \<longleftrightarrow>
     (if j = 0 then bit (data ! b) k else j < 64 \<and> bit r (j - 1))"
  unfolding bit_or_iff bit_payloadBit bit_push_bit_iff
  by (cases j) (auto dest: bit_imp_le_length simp add: possible_bit_word)



lemma inRange_filter_length:
  "length (filter (\<lambda>i. i \<le> S \<and> S - i < 64) [0..<n]) = beCount S n"
  by (induction n) (auto simp add: beCount_def)

lemma inRangeCount_eq: "inRangeCount start len = beCount (unat start) (unat len)"
  by (simp add: inRangeCount_def inRange_filter_length)

lemma be_loop_bits:
  "bit (fold (beStep data start) [0..<n] 0) j \<longleftrightarrow>
     j < beCount (unat start) n \<and>
     bit (data ! ((unat start + 1 - min n (unat start + 1) + j) div 8))
         ((unat start + 1 - min n (unat start + 1) + j) mod 8)"
proof (induction n arbitrary: j)
  case 0
  then show ?case by (simp add: beCount_def)
next
  case (Suc n)
  let ?S = "unat start"
  let ?R = "fold (beStep data start) [0..<n] 0"
  have step: "fold (beStep data start) [0..<Suc n] 0 = beStep data start n ?R"
    by simp
  consider (above) "?S < n" | (far) "n \<le> ?S" "?S - n \<ge> 64" | (inr) "n \<le> ?S" "?S - n < 64"
    by linarith
  then show ?case
  proof cases
    case above
    then have "beStep data start n ?R = ?R"
      by (simp add: beStep_nat)
    moreover have "min (Suc n) (?S + 1) = min n (?S + 1)"
      using above by simp
    ultimately show ?thesis
      using Suc.IH [of j] by (simp only: step beCount_def)
  next
    case far
    then have eq: "beStep data start n ?R = ?R"
      by (simp add: beStep_nat)
    have c0: "beCount ?S n = 0" "beCount ?S (Suc n) = 0"
      using far by (simp_all add: beCount_def)
    show ?thesis
      using Suc.IH [of j] by (simp only: step eq c0) simp
  next
    case inr
    then have eq: "beStep data start n ?R =
        push_bit 1 ?R OR payloadBit data ((?S - n) div 8) ((?S - n) mod 8)"
      by (simp add: beStep_nat)
    have m: "min (Suc n) (?S + 1) = Suc n" "min n (?S + 1) = n"
      using inr by simp_all
    have cnt: "beCount ?S (Suc n) = Suc (beCount ?S n)" "beCount ?S (Suc n) \<le> 64"
      using inr by (simp_all add: beCount_def)
    show ?thesis
    proof (cases j)
      case 0
      then show ?thesis
        using inr unfolding step eq bit_shift_in m by (simp add: cnt)
    next
      case (Suc k)
      have "k < beCount ?S n \<Longrightarrow> Suc k < 64"
        using cnt by simp
      moreover have "Suc (?S + k) - n = Suc (?S + k - n)"
        using inr by simp
      ultimately show ?thesis
        using inr Suc Suc.IH [of k] unfolding step eq bit_shift_in m
        by (auto simp add: cnt)
    qed
  qed
qed

text \<open>
  C6, as the code has it. For a big-endian signal of 1 to 64 bits the bits are
  accumulated most significant first from bit \<open>(start - i) mod 8\<close> of byte
  \<open>(start - i) div 8\<close>, for the indices \<open>i\<close> whose position lies in the payload
  only: index \<open>i\<close> ends at result bit \<open>min (len - 1) start - i\<close>, and the result has
  no bit at or above the number of such indices. A position outside the payload does
  not shift the accumulator.
\<close>

theorem C6_be_skips_out_of_range:
  assumes "0 < len" and "len \<le> 64"
  shows "(\<forall>i. i < unat len \<and> i \<le> unat start \<and> unat start - i < 64 \<longrightarrow>
            bit (extractBits data start len True) (min (unat len - 1) (unat start) - i) =
            bit (data ! ((unat start - i) div 8)) ((unat start - i) mod 8)) \<and>
         (\<forall>j. inRangeCount start len \<le> j \<longrightarrow> \<not> bit (extractBits data start len True) j)"
proof -
  let ?S = "unat start" and ?n = "unat len"
  have n: "0 < ?n" using assms(1) by (simp add: word_less_nat_alt)
  have ex: "extractBits data start len True = fold (beStep data start) [0..<?n] 0"
    using assms by (auto simp add: extractBits_def)
  have m: "min ?n (?S + 1) = min (?n - 1) ?S + 1"
    using n by linarith
  show ?thesis
    unfolding ex be_loop_bits inRangeCount_eq m
    by (auto simp add: beCount_def)
qed

theorem C6_be_skips_out_of_range_witness:
  "(0::u8) < 8 \<and> (8::u8) \<le> 64 \<and>
   bit (extractBits [0x0F, 0, 0, 0, 0, 0, 0, 0] 3 8 True) 2 =
     bit ([0x0F, 0, 0, 0, 0, 0, 0, 0::u8] ! 0) 2 \<and>
   \<not> bit (extractBits [0x0F, 0, 0, 0, 0, 0, 0, 0] 3 8 True) 4"
proof -
  have h: "(0::u8) < 8" "(8::u8) \<le> 64"
    by simp_all
  note t = C6_be_skips_out_of_range [OF h, of 3 "[0x0F, 0, 0, 0, 0, 0, 0, 0]"]
  from t [THEN conjunct1, THEN spec, of 1]
  have a: "bit (extractBits [0x0F, 0, 0, 0, 0, 0, 0, 0] 3 8 True) 2 =
      bit ([0x0F, 0, 0, 0, 0, 0, 0, 0::u8] ! 0) 2"
    by simp
  from t [THEN conjunct2, THEN spec, of 4]
  have b: "\<not> bit (extractBits [0x0F, 0, 0, 0, 0, 0, 0, 0] 3 8 True) 4"
    by (simp add: inRangeCount_eq beCount_def)
  from h a b show ?thesis
    by blast
qed

text \<open>
  C6 as stated fails: with start bit 3 and length 8 the positions of \<open>i = 4..7\<close> are
  negative. Shifting a zero in for each of them gives 240 for the payload byte
  \<open>0F\<close>; the code gives 15.
\<close>

theorem C6_be_zero_fill_counterexample:
  "extractBits [0x0F, 0, 0, 0, 0, 0, 0, 0] 3 8 True = 15 \<and>
   extractBitsBE_spec [0x0F, 0, 0, 0, 0, 0, 0, 0] 3 8 = 240"
  by code_simp

text \<open>
  C6, the concrete scenario: a big-endian 8-bit signal at start bit 7 decodes the
  payload \<open>5A 00 ..\<close> to 90.
\<close>

lemma decode_be8_scenario:
  "decodeSignal (mkSignal 0x100 7 8 True False 1 0) [0x5A, 0, 0, 0, 0, 0, 0, 0] = 90"
proof -
  have "extractBits [0x5A, 0, 0, 0, 0, 0, 0, 0] 7 8 True = 90"
    by code_simp
  then show ?thesis
    by (simp add: decodeSignal_def mkSignal_def)
qed

section \<open>Rule evaluation stays inside the tables\<close>

lemma elemAt_in_range: "i < length xs \<Longrightarrow> elemAt xs i = Inr (xs ! i)"
  by (simp add: elemAt_def)

lemma evaluateCondition_total:
  "\<exists>res cond'. evaluateCondition sigs cond nowMs = Inr (res, cond')"
  by (auto simp add: evaluateCondition_def elemAt_def Let_def)

lemma evaluateCondition_bad_index:
  "length sigs \<le> unat (signalIdx cond) \<Longrightarrow>
   evaluateCondition sigs cond nowMs = Inr (False, cond)"
  by (simp add: evaluateCondition_def)

lemma allMetLoop_stop:
  "\<not> (c < length conds \<and> c < 32) \<Longrightarrow>
   allMetLoop nowMs sigs cmask conds c = Inr (True, conds)"
  by (subst allMetLoop.simps) auto

lemma allMetLoop_skip:
  "c < length conds \<Longrightarrow> c < 32 \<Longrightarrow> \<not> bit cmask c \<Longrightarrow>
   allMetLoop nowMs sigs cmask conds c = allMetLoop nowMs sigs cmask conds (c + 1)"
  by (subst allMetLoop.simps) auto

lemma allMetLoop_eval:
  "c < length conds \<Longrightarrow> c < 32 \<Longrightarrow> bit cmask c \<Longrightarrow>
   evaluateCondition sigs (conds ! c) nowMs = Inr (res, cond') \<Longrightarrow>
   allMetLoop nowMs sigs cmask conds c =
     (if \<not> res then Inr (False, conds[c := cond'])
      else allMetLoop nowMs sigs cmask (conds[c := cond']) (c + 1))"
  by (subst allMetLoop.simps) (auto simp add: elemAt_def)

lemma allMetLoop_total:
  "\<exists>b cs. allMetLoop nowMs sigs cmask conds c = Inr (b, cs) \<and> length cs = length conds"
proof (induction nowMs sigs cmask conds c rule: allMetLoop.induct)
  case (1 nowMs sigs cmask conds c)
  show ?case
  proof (cases "c < length conds \<and> c < 32")
    case False
    then show ?thesis by (auto simp add: allMetLoop_stop)
  next
    case inb: True
    show ?thesis
    proof (cases "bit cmask c")
      case False
      then show ?thesis
        using inb "1.IH"(2) by (simp add: allMetLoop_skip)
    next
      case True
      obtain res cond' where ev: "evaluateCondition sigs (conds ! c) nowMs = Inr (res, cond')"
        using evaluateCondition_total by blast
      have el: "elemAt conds c = Inr (conds ! c)"
        using inb by (simp add: elemAt_in_range)
      note unf = allMetLoop_eval [OF conjunct1 [OF inb] conjunct2 [OF inb] True ev]
      show ?thesis
      proof (cases res)
        case False
        then show ?thesis
          unfolding unf by auto
      next
        case r: True
        from "1.IH"(1) [OF inb True el ev refl] r
        obtain b cs where
          "allMetLoop nowMs sigs cmask (conds[c := cond']) (c + 1) = Inr (b, cs)"
          "length cs = length conds"
          by auto
        then show ?thesis
          unfolding unf using r by simp
      qed
    qed
  qed
qed

lemma allMetLoop_mask_bits:
  assumes "\<forall>k. k < length conds \<and> k < 32 \<longrightarrow> bit cmask' k = bit cmask k"
  shows "allMetLoop nowMs sigs cmask conds c = allMetLoop nowMs sigs cmask' conds c"
  using assms
proof (induction nowMs sigs cmask conds c rule: allMetLoop.induct)
  case (1 nowMs sigs cmask conds c)
  show ?case
  proof (cases "c < length conds \<and> c < 32")
    case False
    then show ?thesis
      by (simp add: allMetLoop_stop)
  next
    case inb: True
    then have same: "bit cmask' c = bit cmask c"
      using "1.prems" by blast
    show ?thesis
    proof (cases "bit cmask c")
      case False
      then show ?thesis
        using inb same "1.IH"(2) "1.prems"
        by (simp add: allMetLoop_skip)
    next
      case True
      obtain res cond' where ev: "evaluateCondition sigs (conds ! c) nowMs = Inr (res, cond')"
        using evaluateCondition_total by blast
      have el: "elemAt conds c = Inr (conds ! c)"
        using inb by (simp add: elemAt_in_range)
      have True': "bit cmask' c"
        using True same by simp
      note unf = allMetLoop_eval [OF conjunct1 [OF inb] conjunct2 [OF inb] True ev]
      note unf' = allMetLoop_eval [OF conjunct1 [OF inb] conjunct2 [OF inb] True' ev]
      show ?thesis
      proof (cases res)
        case False
        then show ?thesis
          unfolding unf unf' by simp
      next
        case r: True
        have "allMetLoop nowMs sigs cmask (conds[c := cond']) (c + 1) =
              allMetLoop nowMs sigs cmask' (conds[c := cond']) (c + 1)"
          using "1.IH"(1) [OF inb True el ev refl] r "1.prems" by simp
        then show ?thesis
          unfolding unf unf' by simp
      qed
    qed
  qed
qed

lemma execActions_slice:
  "execActions h acts a stop calls =
     Inr (calls @ concat (map (executeAction h) (take (stop - a) (drop a acts))))"
proof (induction h acts a stop calls rule: execActions.induct)
  case (1 h acts a stop calls)
  show ?case
  proof (cases "a < stop \<and> a < length acts")
    case False
    then show ?thesis by (subst execActions.simps) auto
  next
    case True
    then have el: "elemAt acts a = Inr (acts ! a)"
      by (simp add: elemAt_in_range)
    have split: "take (stop - a) (drop a acts) = acts ! a # take (stop - (a + 1)) (drop (a + 1) acts)"
      using True
      by (metis Cons_nth_drop_Suc Suc_diff_Suc Suc_eq_plus1 take_Suc_Cons)
    show ?thesis
      using True el "1.IH" [OF True el]
      by (subst execActions.simps) (simp add: split)
  qed
qed

lemma evalRule_total:
  "\<exists>rule' conds' out. evalRule nowMs sigs acts h conds rule = Inr (rule', conds', out) \<and>
     length conds' = length conds"
proof -
  obtain b cs where "allMetLoop nowMs sigs (conditionMask rule) conds 0 = Inr (b, cs)"
    "length cs = length conds"
    using allMetLoop_total by blast
  then show ?thesis
    by (simp add: evalRule_def execActions_slice split: prod.splits)
qed

lemma evalRulesLoop_total:
  "\<exists>rs cs t outs. evalRulesLoop nowMs sigs acts h rls conds trig = Inr (rs, cs, t, outs)"
proof (induction rls arbitrary: conds trig)
  case Nil
  show ?case by simp
next
  case (Cons rule rest)
  obtain rule' conds' out where
    r: "evalRule nowMs sigs acts h conds rule = Inr (rule', conds', out)"
    using evalRule_total by blast
  obtain rs cs t outs where
    "evalRulesLoop nowMs sigs acts h rest conds' (if ro_fired out then trig + 1 else trig) =
       Inr (rs, cs, t, outs)"
    using Cons.IH by blast
  then show ?case
    using r by simp
qed

lemma evaluateRules_total: "\<exists>e' outs. evaluateRules e nowMs = Inr (e', outs)"
proof -
  obtain rs cs t outs where
    "evalRulesLoop nowMs (signals e) (actions e) (handlers e) (rules e) (conditions e)
       (rulesTriggered e) = Inr (rs, cs, t, outs)"
    using evalRulesLoop_total by blast
  then show ?thesis
    by (simp add: evaluateRules_def)
qed

text \<open>
  C10. For every engine state and every clock value \<open>evaluateRules\<close> returns without
  an access outside a vector, and so does \<open>evaluateCondition\<close> for every signal table
  and condition; a condition whose signal index is not below the number of signals
  evaluates to false and is left as it is; the condition loop gives the same result
  for a mask and for the mask cut to its bits below \<open>min 32 (number of conditions)\<close>;
  the action loop from \<open>a\<close> to \<open>stop\<close> calls the handlers of the actions
  \<open>a .. stop - 1\<close> that exist in the table, in order.
\<close>

theorem C10_evaluation_in_bounds:
  "(\<exists>e' outs. evaluateRules e nowMs = Inr (e', outs)) \<and>
   (\<exists>res cond'. evaluateCondition sigs cond nowMs = Inr (res, cond')) \<and>
   (length sigs \<le> unat (signalIdx cond) \<longrightarrow>
      evaluateCondition sigs cond nowMs = Inr (False, cond)) \<and>
   allMetLoop nowMs sigs cmask conds 0 =
     allMetLoop nowMs sigs (take_bit (min 32 (length conds)) cmask) conds 0 \<and>
   execActions h acts a stop [] =
     Inr (concat (map (executeAction h) (take (stop - a) (drop a acts))))"
proof -
  have "allMetLoop nowMs sigs cmask conds 0 =
      allMetLoop nowMs sigs (take_bit (min 32 (length conds)) cmask) conds 0"
    by (rule allMetLoop_mask_bits) (simp add: bit_take_bit_iff)
  then show ?thesis
    using evaluateRules_total evaluateCondition_total evaluateCondition_bad_index
      execActions_slice [of h acts a stop "[]"]
    by simp
qed


theorem C10_evaluation_in_bounds_witness:
  "(\<exists>e' outs. evaluateRules demoEngine 7 = Inr (e', outs)) \<and>
   evaluateCondition [] demoCondition 7 = Inr (False, demoCondition) \<and>
   execActions {[0x61]} (actions demoEngine) 0 9 [] = Inr (actions demoEngine)"
proof -
  have h: "length ([] :: RuntimeSignal list) \<le> unat (signalIdx demoCondition)"
    by simp
  note t = C10_evaluation_in_bounds [of demoEngine 7 "[]" demoCondition 0 "[]"
      "{[0x61]}" "actions demoEngine" 0 9]
  have a: "concat (map (executeAction {[0x61]}) (take (9 - 0) (drop 0 (actions demoEngine)))) =
      actions demoEngine"
    by (simp add: demoEngine_def newEngine_def executeAction_def)
  from t h a show ?thesis
    by simp
qed

section \<open>Debounce and cooldown\<close>

lemma ruleTick_props:
  "ruleTick now am r = (r', fd) \<Longrightarrow>
     debounceMs r' = debounceMs r \<and> cooldownMs r' = cooldownMs r \<and>
     lastConditionState r' = am \<and>
     lastConditionChangeMs r' =
       (if am \<noteq> lastConditionState r then now else lastConditionChangeMs r) \<and>
     lastTriggerMs r' = (if fd then now else lastTriggerMs r) \<and>
     (fd \<longleftrightarrow> am \<and> ucast (debounceMs r) \<le> now - lastConditionChangeMs r' \<and>
        ucast (cooldownMs r) \<le> now - lastTriggerMs r)"
  by (auto simp add: ruleTick_def Let_def split: if_splits)

lemma evalRule_tick:
  "evalRule now sigs acts h conds rule = Inr (r', conds', out) \<Longrightarrow>
   ruleTick now (ro_allMet out) rule = (r', ro_fired out)"
  by (auto simp add: evalRule_def split: sum.splits prod.splits if_splits)

lemma evalRulesLoop_props:
  "evalRulesLoop now sigs acts h rls conds trig = Inr (rs', cs, t, outs) \<Longrightarrow>
     length rs' = length rls \<and> length outs = length rls \<and>
     (\<forall>i<length rls. ruleTick now (ro_allMet (outs ! i)) (rls ! i) = (rs' ! i, ro_fired (outs ! i))) \<and>
     t = trig + of_nat (length (filter ro_fired outs))"
proof (induction rls arbitrary: conds trig rs' cs t outs)
  case Nil
  then show ?case by simp
next
  case (Cons rule rest)
  from Cons.prems obtain r1 c1 o1 rs1 outs1 where
    hd: "evalRule now sigs acts h conds rule = Inr (r1, c1, o1)" and
    tl: "evalRulesLoop now sigs acts h rest c1 (if ro_fired o1 then trig + 1 else trig) =
           Inr (rs1, cs, t, outs1)" and
    eqs: "rs' = r1 # rs1" "outs = o1 # outs1"
    by (auto split: sum.splits prod.splits)
  note ih = Cons.IH [OF tl]
  have tick: "ruleTick now (ro_allMet o1) rule = (r1, ro_fired o1)"
    using hd by (rule evalRule_tick)
  have "\<forall>i<length (rule # rest).
      ruleTick now (ro_allMet (outs ! i)) ((rule # rest) ! i) = (rs' ! i, ro_fired (outs ! i))"
  proof (intro allI impI)
    fix i assume "i < length (rule # rest)"
    then show "ruleTick now (ro_allMet (outs ! i)) ((rule # rest) ! i) =
        (rs' ! i, ro_fired (outs ! i))"
      using tick ih eqs by (cases i) simp_all
  qed
  moreover have "t = trig + of_nat (length (filter ro_fired outs))"
    using ih eqs by simp
  ultimately show ?case
    using ih eqs by simp
qed

lemma evaluateRules_props:
  assumes "evaluateRules e now = Inr (e', outs)"
  shows "length (rules e') = length (rules e)" and "length outs = length (rules e)"
    and "i < length (rules e) \<Longrightarrow>
         ruleTick now (ro_allMet (outs ! i)) (rules e ! i) = (rules e' ! i, ro_fired (outs ! i))"
    and "rulesTriggered e' = rulesTriggered e + of_nat (length (filter ro_fired outs))"
proof -
  from assms obtain rs' cs t where
    l: "evalRulesLoop now (signals e) (actions e) (handlers e) (rules e) (conditions e)
          (rulesTriggered e) = Inr (rs', cs, t, outs)" and
    e': "e' = e\<lparr>rules := rs', conditions := cs, rulesTriggered := t\<rparr>"
    by (auto simp add: evaluateRules_def split: sum.splits prod.splits)
  note p = evalRulesLoop_props [OF l]
  show "length (rules e') = length (rules e)" using p e' by simp
  show "length outs = length (rules e)" using p by simp
  show "i < length (rules e) \<Longrightarrow>
         ruleTick now (ro_allMet (outs ! i)) (rules e ! i) = (rules e' ! i, ro_fired (outs ! i))"
    using p e' by simp
  show "rulesTriggered e' = rulesTriggered e + of_nat (length (filter ro_fired outs))"
    using p e' by simp
qed

lemma processCanFrame_rules:
  "rules (processCanFrame frame now e) = rules e \<and>
   rulesTriggered (processCanFrame frame now e) = rulesTriggered e"
  by (simp add: processCanFrame_def Let_def split: option.splits prod.splits)

lemma unat_ucast_16_32: "unat (ucast (d :: u16) :: u32) = unat d"
proof -
  have "unat d < 2 ^ 16"
    using unsigned_less [of d] by simp
  then have "unat d < 2 ^ 32"
    by simp
  then show ?thesis
    by (simp add: unsigned_ucast_eq take_bit_nat_eq_self)
qed

lemma gap_le:
  fixes a b :: u32 and d :: u16
  assumes "unat a \<le> unat b" and "ucast d \<le> b - a"
  shows "unat a + unat d \<le> unat b"
proof -
  have "a \<le> b" using assms(1) by (simp add: word_le_nat_alt)
  then have "unat (b - a) = unat b - unat a" by (rule unat_sub)
  moreover have "unat d \<le> unat (b - a)"
    using assms(2) by (simp add: word_le_nat_alt unat_ucast_16_32)
  ultimately show ?thesis using assms(1) by simp
qed

lemma zero_gap:
  fixes a :: u32 and d :: u16
  assumes "ucast d \<le> a - a"
  shows "unat d = 0"
  using assms by (simp add: word_le_nat_alt unat_ucast_16_32)

lemma runEvents_extends:
  "runEvents evs (e, hist) = Inr (e', hist') \<Longrightarrow> \<exists>ext. hist' = hist @ ext"
proof (induction evs arbitrary: e hist)
  case Nil
  then show ?case by simp
next
  case (Cons ev evs)
  show ?case
  proof (cases ev)
    case (CanRx frame now)
    then show ?thesis using Cons by simp
  next
    case (EvalRules now)
    with Cons.prems obtain e1 outs where
      "runEvents evs (e1, hist @ [\<lparr>at_ms = now, outcomes = outs, engine_after = e1\<rparr>]) =
         Inr (e', hist')"
      by (auto split: sum.splits prod.splits)
    from Cons.IH [OF this] show ?thesis by auto
  qed
qed

lemma nth_app_left: "m < length hist \<Longrightarrow> (hist @ ext) ! m = hist ! m"
  by (simp add: nth_append)

lemma metAt_append: "m < length hist \<Longrightarrow> metAt (hist @ ext) i m = metAt hist i m"
  by (simp add: metAt_def nth_append)

lemma firedAt_append: "m < length hist \<Longrightarrow> firedAt (hist @ ext) i m = firedAt hist i m"
  by (simp add: firedAt_def nth_append)

lemma timeAt_append: "m < length hist \<Longrightarrow> timeAt (hist @ ext) m = timeAt hist m"
  by (simp add: timeAt_def nth_append)

lemma engineBefore_append:
  "k \<le> length hist \<Longrightarrow> engineBefore e0 (hist @ ext) k = engineBefore e0 hist k"
  by (simp add: engineBefore_def nth_append)

lemma gated_append:
  assumes "k < length hist"
  shows "gated i e0 (hist @ ext) k = gated i e0 hist k"
proof -
  have m: "\<And>m. m \<le> k \<Longrightarrow> metAt (hist @ ext) i m = metAt hist i m"
    using assms by (simp add: metAt_append)
  have f: "\<And>m. m < k \<Longrightarrow> firedAt (hist @ ext) i m = firedAt hist i m"
    using assms by (simp add: firedAt_append)
  have t: "\<And>m. m \<le> k \<Longrightarrow> timeAt (hist @ ext) m = timeAt hist m"
    using assms by (simp add: timeAt_append)
  have n: "(hist @ ext) ! k = hist ! k"
    using assms by (simp add: nth_app_left)
  have b: "engineBefore e0 (hist @ ext) k = engineBefore e0 hist k"
    using assms by (simp add: engineBefore_append)
  show ?thesis
    unfolding gated_def n b
    by (simp add: m f t cong: conj_cong)
qed

lemma eval_step:
  assumes inv: "ruleInv i e0 e hist"
    and P: "\<forall>k<length hist. firedAt hist i k \<longrightarrow> gated i e0 hist k"
    and ev: "evaluateRules e now = Inr (e', outs)"
    and srt: "sorted (map (\<lambda>r. unat (at_ms r))
                (hist @ [\<lparr>at_ms = now, outcomes = outs, engine_after = e'\<rparr>]))"
  shows "ruleInv i e0 e' (hist @ [\<lparr>at_ms = now, outcomes = outs, engine_after = e'\<rparr>]) \<and>
         (\<forall>k<length (hist @ [\<lparr>at_ms = now, outcomes = outs, engine_after = e'\<rparr>]).
            firedAt (hist @ [\<lparr>at_ms = now, outcomes = outs, engine_after = e'\<rparr>]) i k \<longrightarrow>
            gated i e0 (hist @ [\<lparr>at_ms = now, outcomes = outs, engine_after = e'\<rparr>]) k)"
proof -
  let ?rec = "\<lparr>at_ms = now, outcomes = outs, engine_after = e'\<rparr>"
  let ?h = "hist @ [?rec]"
  let ?n = "length hist"
  let ?r = "rules e ! i" and ?r' = "rules e' ! i"
  let ?am = "ro_allMet (outs ! i)" and ?fd = "ro_fired (outs ! i)"
  let ?D = "unat (debounceMs (rules e0 ! i))" and ?C = "unat (cooldownMs (rules e0 ! i))"
  have i: "i < length (rules e)"
    and dD: "debounceMs ?r = debounceMs (rules e0 ! i)"
    and dC: "cooldownMs ?r = cooldownMs (rules e0 ! i)"
    and trg: "rulesTriggered e = rulesTriggered (engineBefore e0 hist ?n)"
    and I1: "lastConditionState ?r \<Longrightarrow>
       \<exists>j<?n. lastConditionChangeMs ?r = at_ms (hist ! j) \<and>
          (\<forall>m. j \<le> m \<and> m < ?n \<longrightarrow> metAt hist i m)"
    and I2: "\<And>j. j < ?n \<Longrightarrow> firedAt hist i j \<Longrightarrow>
       \<exists>j'. j \<le> j' \<and> j' < ?n \<and> lastTriggerMs ?r = at_ms (hist ! j')"
    using inv unfolding ruleInv_def by blast+
  note ep = evaluateRules_props [OF ev]
  have tick: "ruleTick now ?am ?r = (?r', ?fd)"
    using ep(3) [OF i] .
  note tp = ruleTick_props [OF tick]
  have st: "lastConditionState ?r' = ?am" using tp by simp
  have chg: "lastConditionChangeMs ?r' =
      (if ?am \<noteq> lastConditionState ?r then now else lastConditionChangeMs ?r)"
    using tp by simp
  have ltr: "lastTriggerMs ?r' = (if ?fd then now else lastTriggerMs ?r)"
    using tp by simp
  have fdiff: "?fd \<longleftrightarrow> ?am \<and> ucast (debounceMs ?r) \<le> now - lastConditionChangeMs ?r' \<and>
        ucast (cooldownMs ?r) \<le> now - lastTriggerMs ?r"
    using tp by blast
  have i': "i < length (rules e')" using ep(1) i by simp
  \<comment> \<open>the new history at old and new indices\<close>
  have old_m: "\<And>m. m < ?n \<Longrightarrow> metAt ?h i m = metAt hist i m"
    by (simp add: metAt_append)
  have old_f: "\<And>m. m < ?n \<Longrightarrow> firedAt ?h i m = firedAt hist i m"
    by (simp add: firedAt_append)
  have old_t: "\<And>m. m < ?n \<Longrightarrow> timeAt ?h m = timeAt hist m"
    by (simp add: timeAt_append)
  have old_n: "\<And>m. m < ?n \<Longrightarrow> ?h ! m = hist ! m"
    by (simp add: nth_app_left)
  have new_n: "?h ! ?n = ?rec" by simp
  have new_m: "metAt ?h i ?n = ?am" by (simp add: metAt_def)
  have new_f: "firedAt ?h i ?n = ?fd" by (simp add: firedAt_def)
  have new_t: "timeAt ?h ?n = unat now" by (simp add: timeAt_def)
  have len: "length ?h = Suc ?n" by simp
  have before: "\<And>j. j < ?n \<Longrightarrow> unat (at_ms (hist ! j)) \<le> unat now"
    using srt by (simp add: sorted_append)
  have mono: "\<And>j j'. j \<le> j' \<Longrightarrow> j' < ?n \<Longrightarrow> unat (at_ms (hist ! j)) \<le> unat (at_ms (hist ! j'))"
  proof -
    fix j j' assume a: "j \<le> j'" "j' < ?n"
    have "sorted (map (\<lambda>r. unat (at_ms r)) hist)"
      using srt by (simp add: sorted_append)
    from sorted_nth_mono [OF this, of j j'] a show
      "unat (at_ms (hist ! j)) \<le> unat (at_ms (hist ! j'))"
      by simp
  qed
  \<comment> \<open>the invariant\<close>
  have J1: "lastConditionState ?r' \<longrightarrow>
       (\<exists>j<length ?h. lastConditionChangeMs ?r' = at_ms (?h ! j) \<and>
          (\<forall>m. j \<le> m \<and> m < length ?h \<longrightarrow> metAt ?h i m))"
  proof
    assume "lastConditionState ?r'"
    then have am: "?am" using st by simp
    show "\<exists>j<length ?h. lastConditionChangeMs ?r' = at_ms (?h ! j) \<and>
          (\<forall>m. j \<le> m \<and> m < length ?h \<longrightarrow> metAt ?h i m)"
    proof (cases "lastConditionState ?r")
      case False
      then have "lastConditionChangeMs ?r' = now" using chg am by simp
      then have "lastConditionChangeMs ?r' = at_ms (?h ! ?n) \<and>
          (\<forall>m. ?n \<le> m \<and> m < length ?h \<longrightarrow> metAt ?h i m)"
        using am new_m by (auto simp add: less_Suc_eq)
      then show ?thesis unfolding len by blast
    next
      case True
      from I1 [OF True] obtain j where j: "j < ?n"
        "lastConditionChangeMs ?r = at_ms (hist ! j)"
        "\<forall>m. j \<le> m \<and> m < ?n \<longrightarrow> metAt hist i m"
        by blast
      have c: "lastConditionChangeMs ?r' = at_ms (?h ! j)"
        using chg am True j old_n by simp
      have "\<forall>m. j \<le> m \<and> m < length ?h \<longrightarrow> metAt ?h i m"
      proof (intro allI impI)
        fix m assume m: "j \<le> m \<and> m < length ?h"
        show "metAt ?h i m"
        proof (cases "m < ?n")
          case True
          then show ?thesis using j(3) m old_m by simp
        next
          case False
          then have "m = ?n" using m by simp
          then show ?thesis using new_m am by simp
        qed
      qed
      with c j(1) show ?thesis unfolding len by (meson less_Suc_eq)
    qed
  qed
  have J2: "\<forall>j<length ?h. firedAt ?h i j \<longrightarrow>
        (\<exists>j'. j \<le> j' \<and> j' < length ?h \<and> lastTriggerMs ?r' = at_ms (?h ! j'))"
  proof (intro allI impI)
    fix j assume j: "j < length ?h" and f: "firedAt ?h i j"
    show "\<exists>j'. j \<le> j' \<and> j' < length ?h \<and> lastTriggerMs ?r' = at_ms (?h ! j')"
    proof (cases ?fd)
      case True
      then have "lastTriggerMs ?r' = at_ms (?h ! ?n)" using ltr by simp
      moreover have "j \<le> ?n" using j by simp
      ultimately show ?thesis unfolding len by blast
    next
      case False
      then have "j \<noteq> ?n" using f new_f by auto
      then have jn: "j < ?n" using j by simp
      then have "firedAt hist i j" using f old_f by simp
      from I2 [OF jn this] obtain j' where j': "j \<le> j'" "j' < ?n"
        "lastTriggerMs ?r = at_ms (hist ! j')"
        by blast
      then have "lastTriggerMs ?r' = at_ms (?h ! j')"
        using ltr False old_n by simp
      with j' show ?thesis unfolding len by (meson less_Suc_eq)
    qed
  qed
  have J3: "rulesTriggered e' = rulesTriggered (engineBefore e0 ?h (length ?h))"
    by (simp add: engineBefore_def)
  have inv': "ruleInv i e0 e' ?h"
    unfolding ruleInv_def using i' tp dD dC J1 J2 J3 by simp
  \<comment> \<open>the gating of the new call\<close>
  have G: "?fd \<longrightarrow> gated i e0 ?h ?n"
  proof
    assume fd: ?fd
    then have am: ?am
      and deb: "ucast (debounceMs ?r) \<le> now - lastConditionChangeMs ?r'"
      and coo: "ucast (cooldownMs ?r) \<le> now - lastTriggerMs ?r"
      using fdiff by blast+
    have g1: "\<exists>j\<le>?n. (\<forall>m. j \<le> m \<and> m \<le> ?n \<longrightarrow> metAt ?h i m) \<and>
        timeAt ?h j + ?D \<le> timeAt ?h ?n"
    proof (cases "lastConditionState ?r")
      case False
      then have "lastConditionChangeMs ?r' = now" using chg am by simp
      then have "unat (debounceMs ?r) = 0" using deb zero_gap by simp
      then have "timeAt ?h ?n + ?D \<le> timeAt ?h ?n" using dD by simp
      moreover have "\<forall>m. ?n \<le> m \<and> m \<le> ?n \<longrightarrow> metAt ?h i m"
        using new_m am by auto
      ultimately show ?thesis by blast
    next
      case True
      from I1 [OF True] obtain j where j: "j < ?n"
        "lastConditionChangeMs ?r = at_ms (hist ! j)"
        "\<forall>m. j \<le> m \<and> m < ?n \<longrightarrow> metAt hist i m"
        by blast
      have "lastConditionChangeMs ?r' = at_ms (hist ! j)"
        using chg am True j by simp
      with deb have "ucast (debounceMs ?r) \<le> now - at_ms (hist ! j)" by simp
      from gap_le [OF before [OF j(1)] this]
      have "timeAt ?h j + ?D \<le> timeAt ?h ?n"
        using old_t [OF j(1)] new_t dD by (simp add: timeAt_def)
      moreover have "\<forall>m. j \<le> m \<and> m \<le> ?n \<longrightarrow> metAt ?h i m"
      proof (intro allI impI)
        fix m assume m: "j \<le> m \<and> m \<le> ?n"
        show "metAt ?h i m"
        proof (cases "m < ?n")
          case True
          then show ?thesis using j(3) m old_m by simp
        next
          case False
          then have "m = ?n" using m by simp
          then show ?thesis using new_m am by simp
        qed
      qed
      moreover have "j \<le> ?n" using j(1) by simp
      ultimately show ?thesis by blast
    qed
    have g2: "\<forall>j<?n. firedAt ?h i j \<longrightarrow> timeAt ?h j + ?C \<le> timeAt ?h ?n"
    proof (intro allI impI)
      fix j assume jn: "j < ?n" and "firedAt ?h i j"
      then have "firedAt hist i j" using old_f by simp
      from I2 [OF jn this] obtain j' where j': "j \<le> j'" "j' < ?n"
        "lastTriggerMs ?r = at_ms (hist ! j')"
        by blast
      from coo j'(3) have "ucast (cooldownMs ?r) \<le> now - at_ms (hist ! j')" by simp
      from gap_le [OF before [OF j'(2)] this]
      have "unat (at_ms (hist ! j')) + ?C \<le> unat now" using dC by simp
      moreover have "unat (at_ms (hist ! j)) \<le> unat (at_ms (hist ! j'))"
        using mono [OF j'(1) j'(2)] .
      ultimately show "timeAt ?h j + ?C \<le> timeAt ?h ?n"
        using old_t [OF jn] new_t by (simp add: timeAt_def)
    qed
    have g3: "lastTriggerMs (rules (engine_after (?h ! ?n)) ! i) = at_ms (?h ! ?n)"
      using ltr fd by simp
    have g4: "rulesTriggered (engine_after (?h ! ?n)) =
        rulesTriggered (engineBefore e0 ?h ?n) +
        of_nat (length (filter ro_fired (outcomes (?h ! ?n))))"
      using ep(4) trg by (simp add: engineBefore_append)
    show "gated i e0 ?h ?n"
      unfolding gated_def using g1 g2 g3 g4 by blast
  qed
  have P': "\<forall>k<length ?h. firedAt ?h i k \<longrightarrow> gated i e0 ?h k"
  proof (intro allI impI)
    fix k assume k: "k < length ?h" and f: "firedAt ?h i k"
    show "gated i e0 ?h k"
    proof (cases "k < ?n")
      case True
      then have "firedAt hist i k" using f old_f by simp
      then have "gated i e0 hist k" using P True by blast
      then show ?thesis using gated_append [OF True] by simp
    next
      case False
      then have kn: "k = ?n" using k by simp
      then have ?fd using f new_f by simp
      then show ?thesis using G kn by simp
    qed
  qed
  from inv' P' show ?thesis by blast
qed

lemma evalRule_calls:
  "evalRule now sigs acts h conds rule = Inr (r', conds', out) \<Longrightarrow>
   ro_calls out \<noteq> [] \<Longrightarrow> ro_fired out"
  by (auto simp add: evalRule_def split: sum.splits prod.splits if_splits)

lemma evalRulesLoop_calls:
  "evalRulesLoop now sigs acts h rls conds trig = Inr (rs', cs, t, outs) \<Longrightarrow>
     \<forall>i<length rls. ro_calls (outs ! i) \<noteq> [] \<longrightarrow> ro_fired (outs ! i)"
proof (induction rls arbitrary: conds trig rs' cs t outs)
  case Nil
  then show ?case by simp
next
  case (Cons rule rest)
  from Cons.prems obtain r1 c1 o1 rs1 outs1 where
    hd: "evalRule now sigs acts h conds rule = Inr (r1, c1, o1)" and
    tl: "evalRulesLoop now sigs acts h rest c1 (if ro_fired o1 then trig + 1 else trig) =
           Inr (rs1, cs, t, outs1)" and
    eqs: "outs = o1 # outs1"
    by (auto split: sum.splits prod.splits)
  note ih = Cons.IH [OF tl]
  have h1: "ro_calls o1 \<noteq> [] \<longrightarrow> ro_fired o1"
    using evalRule_calls [OF hd] by blast
  show ?case
  proof (intro allI impI)
    fix i assume "i < length (rule # rest)" and "ro_calls (outs ! i) \<noteq> []"
    then show "ro_fired (outs ! i)"
      using h1 ih eqs by (cases i) simp_all
  qed
qed

lemma evaluateRules_calls:
  assumes "evaluateRules e now = Inr (e', outs)" and "i < length (rules e)"
    and "ro_calls (outs ! i) \<noteq> []"
  shows "ro_fired (outs ! i)"
proof -
  from assms(1) obtain rs' cs t where
    "evalRulesLoop now (signals e) (actions e) (handlers e) (rules e) (conditions e)
       (rulesTriggered e) = Inr (rs', cs, t, outs)"
    by (auto simp add: evaluateRules_def split: sum.splits prod.splits)
  from evalRulesLoop_calls [OF this] assms(2,3) show ?thesis by blast
qed

text \<open>Along a history, a handler is called for a rule only in a pass in which the rule fires.\<close>

lemma run_calls:
  assumes "runEvents evs (e, hist) = Inr (e', hist')"
    and "i < length (rules e)"
    and "\<forall>k<length hist. ro_calls (outcomes (hist ! k) ! i) \<noteq> [] \<longrightarrow>
           ro_fired (outcomes (hist ! k) ! i)"
  shows "\<forall>k<length hist'. ro_calls (outcomes (hist' ! k) ! i) \<noteq> [] \<longrightarrow>
           ro_fired (outcomes (hist' ! k) ! i)"
  using assms
proof (induction evs arbitrary: e hist)
  case Nil
  then show ?case by simp
next
  case (Cons ev evs)
  show ?case
  proof (cases ev)
    case (CanRx frame now)
    have "i < length (rules (processCanFrame frame now e))"
      using Cons.prems(2) by (simp add: processCanFrame_rules)
    moreover have "runEvents evs (processCanFrame frame now e, hist) = Inr (e', hist')"
      using Cons.prems(1) CanRx by simp
    ultimately show ?thesis
      using Cons.IH Cons.prems(3) by blast
  next
    case (EvalRules now)
    with Cons.prems(1) obtain e1 outs where
      ev: "evaluateRules e now = Inr (e1, outs)" and
      rest: "runEvents evs (e1, hist @ [\<lparr>at_ms = now, outcomes = outs, engine_after = e1\<rparr>]) =
         Inr (e', hist')"
      by (auto split: sum.splits prod.splits)
    let ?h = "hist @ [\<lparr>at_ms = now, outcomes = outs, engine_after = e1\<rparr>]"
    have i1: "i < length (rules e1)"
      using evaluateRules_props(1) [OF ev] Cons.prems(2) by simp
    have new: "ro_calls (outs ! i) \<noteq> [] \<longrightarrow> ro_fired (outs ! i)"
      using evaluateRules_calls [OF ev Cons.prems(2)] by blast
    have "\<forall>k<length ?h. ro_calls (outcomes (?h ! k) ! i) \<noteq> [] \<longrightarrow>
           ro_fired (outcomes (?h ! k) ! i)"
    proof (intro allI impI)
      fix k assume k: "k < length ?h" and c: "ro_calls (outcomes (?h ! k) ! i) \<noteq> []"
      show "ro_fired (outcomes (?h ! k) ! i)"
      proof (cases "k < length hist")
        case True
        then have "?h ! k = hist ! k" by (simp add: nth_app_left)
        then show ?thesis using Cons.prems(3) True c by simp
      next
        case False
        then have "k = length hist" using k by simp
        then have "outcomes (?h ! k) = outs" by simp
        then show ?thesis using new c by simp
      qed
    qed
    from Cons.IH [OF rest i1 this] show ?thesis .
  qed
qed

lemma runEvents_total: "\<exists>e' hist'. runEvents evs (e, hist) = Inr (e', hist')"
proof (induction evs arbitrary: e hist)
  case Nil
  show ?case by simp
next
  case (Cons ev evs)
  show ?case
  proof (cases ev)
    case (CanRx frame now)
    then show ?thesis using Cons.IH by simp
  next
    case (EvalRules now)
    obtain e1 outs where "evaluateRules e now = Inr (e1, outs)"
      using evaluateRules_total by blast
    then show ?thesis using EvalRules Cons.IH by simp
  qed
qed

lemma run_invariant:
  assumes "runEvents evs (e, hist) = Inr (e', hist')"
    and "sorted (map (\<lambda>r. unat (at_ms r)) hist')"
    and "ruleInv i e0 e hist"
    and "\<forall>k<length hist. firedAt hist i k \<longrightarrow> gated i e0 hist k"
  shows "ruleInv i e0 e' hist' \<and> (\<forall>k<length hist'. firedAt hist' i k \<longrightarrow> gated i e0 hist' k)"
  using assms
proof (induction evs arbitrary: e hist)
  case Nil
  then show ?case by simp
next
  case (Cons ev evs)
  show ?case
  proof (cases ev)
    case (CanRx frame now)
    have "ruleInv i e0 (processCanFrame frame now e) hist"
      using Cons.prems(3) by (simp add: ruleInv_def processCanFrame_rules)
    moreover have "runEvents evs (processCanFrame frame now e, hist) = Inr (e', hist')"
      using Cons.prems(1) CanRx by simp
    ultimately show ?thesis
      using Cons.IH Cons.prems(2,4) by blast
  next
    case (EvalRules now)
    with Cons.prems(1) obtain e1 outs where
      ev: "evaluateRules e now = Inr (e1, outs)" and
      rest: "runEvents evs (e1, hist @ [\<lparr>at_ms = now, outcomes = outs, engine_after = e1\<rparr>]) =
         Inr (e', hist')"
      by (auto split: sum.splits prod.splits)
    from runEvents_extends [OF rest] obtain ext where
      "hist' = (hist @ [\<lparr>at_ms = now, outcomes = outs, engine_after = e1\<rparr>]) @ ext"
      by blast
    with Cons.prems(2) have
      "sorted (map (\<lambda>r. unat (at_ms r))
         (hist @ [\<lparr>at_ms = now, outcomes = outs, engine_after = e1\<rparr>]))"
      by (simp add: sorted_append)
    from eval_step [OF Cons.prems(3) Cons.prems(4) ev this]
    show ?thesis
      using Cons.IH [OF rest Cons.prems(2)] by blast
  qed
qed

text \<open>
  C4. Take any history of CAN frames and rule evaluations from an engine state \<open>e0\<close>
  in which rule \<open>i\<close> is as installed (its last condition state is false), with
  non-decreasing clock values at the evaluations, and any evaluation \<open>k\<close> of it. A
  handler is called for an action of the rule at evaluation \<open>k\<close> only if the rule fires
  there. If a handler is called for the rule or the rule fires at evaluation \<open>k\<close>, then
  its conditions were met at every evaluation from some evaluation \<open>j\<close> on that lies at
  least \<open>debounceMs\<close> before; every earlier evaluation at which a handler was called
  for it or it fired lies at least \<open>cooldownMs\<close> before; after the call its
  \<open>lastTriggerMs\<close> is the clock value of the call; and the call raised
  \<open>rulesTriggered_\<close> by the number of rules that fired in it.
\<close>

theorem C4_debounce_cooldown:
  assumes run: "runEvents evs (e0, []) = Inr (e, hist)"
    and clock: "sorted (map (\<lambda>r. unat (at_ms r)) hist)"
    and i: "i < length (rules e0)"
    and fresh: "\<not> lastConditionState (rules e0 ! i)"
    and k: "k < length hist"
  shows "(ro_calls (outcomes (hist ! k) ! i) \<noteq> [] \<longrightarrow> ro_fired (outcomes (hist ! k) ! i)) \<and>
         (ro_calls (outcomes (hist ! k) ! i) \<noteq> [] \<or> ro_fired (outcomes (hist ! k) ! i) \<longrightarrow>
           (\<exists>j\<le>k. (\<forall>m. j \<le> m \<and> m \<le> k \<longrightarrow> ro_allMet (outcomes (hist ! m) ! i)) \<and>
              unat (at_ms (hist ! j)) + unat (debounceMs (rules e0 ! i)) \<le>
                unat (at_ms (hist ! k))) \<and>
           (\<forall>j<k. ro_calls (outcomes (hist ! j) ! i) \<noteq> [] \<or> ro_fired (outcomes (hist ! j) ! i) \<longrightarrow>
              unat (at_ms (hist ! j)) + unat (cooldownMs (rules e0 ! i)) \<le>
                unat (at_ms (hist ! k))) \<and>
           lastTriggerMs (rules (engine_after (hist ! k)) ! i) = at_ms (hist ! k) \<and>
           rulesTriggered (engine_after (hist ! k)) =
             rulesTriggered (engineBefore e0 hist k) +
             of_nat (length (filter ro_fired (outcomes (hist ! k)))))"
proof -
  have call: "\<forall>j<length hist. ro_calls (outcomes (hist ! j) ! i) \<noteq> [] \<longrightarrow>
      ro_fired (outcomes (hist ! j) ! i)"
    using run_calls [OF run i] by simp
  then have c: "ro_calls (outcomes (hist ! k) ! i) \<noteq> [] \<longrightarrow> ro_fired (outcomes (hist ! k) ! i)"
    using k by simp
  have earlier: "\<forall>j<k. ro_calls (outcomes (hist ! j) ! i) \<noteq> [] \<longrightarrow>
      ro_fired (outcomes (hist ! j) ! i)"
    using call k by simp
  have "ruleInv i e0 e0 []"
    using i fresh by (simp add: ruleInv_def engineBefore_def)
  from run_invariant [OF run clock this]
  have "\<forall>k<length hist. firedAt hist i k \<longrightarrow> gated i e0 hist k"
    by simp
  then have "firedAt hist i k \<longrightarrow> gated i e0 hist k"
    using k by simp
  then have g: "ro_fired (outcomes (hist ! k) ! i) \<longrightarrow>
           (\<exists>j\<le>k. (\<forall>m. j \<le> m \<and> m \<le> k \<longrightarrow> ro_allMet (outcomes (hist ! m) ! i)) \<and>
              unat (at_ms (hist ! j)) + unat (debounceMs (rules e0 ! i)) \<le>
                unat (at_ms (hist ! k))) \<and>
           (\<forall>j<k. ro_fired (outcomes (hist ! j) ! i) \<longrightarrow>
              unat (at_ms (hist ! j)) + unat (cooldownMs (rules e0 ! i)) \<le>
                unat (at_ms (hist ! k))) \<and>
           lastTriggerMs (rules (engine_after (hist ! k)) ! i) = at_ms (hist ! k) \<and>
           rulesTriggered (engine_after (hist ! k)) =
             rulesTriggered (engineBefore e0 hist k) +
             of_nat (length (filter ro_fired (outcomes (hist ! k))))"
    unfolding gated_def metAt_def firedAt_def timeAt_def .
  from c g earlier show ?thesis by blast
qed

lemma gate_run:
  "\<exists>e hist. runEvents gateHistory (gateEngine, []) = Inr (e, hist) \<and>
     map at_ms hist = [100, 110, 120, 130, 170 :: u32] \<and>
     map (\<lambda>r. map ro_calls (outcomes r)) hist =
       [[[]], [[]], [[gateAction]], [[]], [[gateAction]]]"
  by (simp add: gateHistory_def gateEngine_def gateAction_def newEngine_def demoCondition_def
      demoRule_def mkSignal_def evaluateRules_def evalRule_def allMetLoop.simps
      evaluateCondition_def elemAt_def compareOp_def ruleTick_def execActions.simps
      executeAction_def Let_def)

theorem C4_debounce_cooldown_witness:
  "\<exists>e hist. runEvents gateHistory (gateEngine, []) = Inr (e, hist) \<and>
     sorted (map (\<lambda>r. unat (at_ms r)) hist) \<and>
     0 < length (rules gateEngine) \<and>
     \<not> lastConditionState (rules gateEngine ! 0) \<and>
     4 < length hist \<and>
     map (\<lambda>r. map ro_calls (outcomes r)) hist =
       [[[]], [[]], [[gateAction]], [[]], [[gateAction]]] \<and>
     ro_calls (outcomes (hist ! 4) ! 0) \<noteq> [] \<and>
     ro_fired (outcomes (hist ! 2) ! 0) \<and>
     ro_fired (outcomes (hist ! 4) ! 0) \<and>
     (\<exists>j\<le>4. (\<forall>m. j \<le> m \<and> m \<le> 4 \<longrightarrow> ro_allMet (outcomes (hist ! m) ! 0)) \<and>
        unat (at_ms (hist ! j)) + 20 \<le> unat (at_ms (hist ! 4))) \<and>
     unat (at_ms (hist ! 2)) + 50 \<le> unat (at_ms (hist ! 4)) \<and>
     lastTriggerMs (rules (engine_after (hist ! 4)) ! 0) = 170"
proof -
  from gate_run obtain e hist where
    run: "runEvents gateHistory (gateEngine, []) = Inr (e, hist)" and
    times: "map at_ms hist = [100, 110, 120, 130, 170 :: u32]" and
    calls: "map (\<lambda>r. map ro_calls (outcomes r)) hist =
      [[[]], [[]], [[gateAction]], [[]], [[gateAction]]]"
    by auto
  have len: "length hist = 5"
    using arg_cong [OF times, of length] by simp
  have tm: "\<And>n. n < 5 \<Longrightarrow> at_ms (hist ! n) = [100, 110, 120, 130, 170 :: u32] ! n"
    using times len by (metis nth_map)
  have cl: "\<And>n. n < 5 \<Longrightarrow> map ro_calls (outcomes (hist ! n)) =
      [[[]], [[]], [[gateAction]], [[]], [[gateAction]]] ! n"
    using calls len by (metis (no_types, lifting) nth_map)
  have c4: "ro_calls (outcomes (hist ! 4) ! 0) \<noteq> []"
  proof -
    have "map ro_calls (outcomes (hist ! 4)) = [[gateAction]]" using cl [of 4] by simp
    then show ?thesis by (cases "outcomes (hist ! 4)") auto
  qed
  have c2: "ro_calls (outcomes (hist ! 2) ! 0) \<noteq> []"
  proof -
    have "map ro_calls (outcomes (hist ! 2)) = [[gateAction]]" using cl [of 2] by simp
    then show ?thesis by (cases "outcomes (hist ! 2)") auto
  qed
  have clock: "sorted (map (\<lambda>r. unat (at_ms r)) hist)"
  proof -
    have "map (\<lambda>r. unat (at_ms r)) hist = map unat (map at_ms hist)" by simp
    then show ?thesis unfolding times by simp
  qed
  have i: "0 < length (rules gateEngine)"
    and fresh: "\<not> lastConditionState (rules gateEngine ! 0)"
    and D: "unat (debounceMs (rules gateEngine ! 0)) = 20"
    and C: "unat (cooldownMs (rules gateEngine ! 0)) = 50"
    by (simp_all add: gateEngine_def newEngine_def demoRule_def)
  have k: "4 < length hist" and k2: "2 < length hist" using len by simp_all
  note t2 = C4_debounce_cooldown [OF run clock i fresh k2]
  note t4 = C4_debounce_cooldown [OF run clock i fresh k]
  from t2 c2 have f2: "ro_fired (outcomes (hist ! 2) ! 0)" by blast
  from t4 c4 have f4: "ro_fired (outcomes (hist ! 4) ! 0)" by blast
  note t = t4 [THEN conjunct2, THEN mp, OF disjI1, OF c4]
  from t have a: "\<exists>j\<le>4. (\<forall>m. j \<le> m \<and> m \<le> 4 \<longrightarrow> ro_allMet (outcomes (hist ! m) ! 0)) \<and>
        unat (at_ms (hist ! j)) + 20 \<le> unat (at_ms (hist ! 4))"
    unfolding D by blast
  from t c2 have b: "unat (at_ms (hist ! 2)) + 50 \<le> unat (at_ms (hist ! 4))"
    unfolding C by simp
  from t have c: "lastTriggerMs (rules (engine_after (hist ! 4)) ! 0) = 170"
    using tm [of 4] by simp
  show ?thesis
    apply (rule exI [of _ e])
    apply (rule exI [of _ hist])
    apply (intro conjI)
               apply (rule run clock i fresh k calls c4 f2 f4 a b c)+
    done
qed

section \<open>The parser and the installation of a ruleset\<close>

lemmas wire_defs =
  rd8_def rd16_def rd32_def rdF32_def f32_value_def
  h_magic_def h_version_def h_flags_def h_totalSize_def h_signalCount_def
  h_conditionCount_def h_actionCount_def h_ruleCount_def h_actionParamCount_def
  h_stringTableOffset_def h_crc32_def
  sizeof_WBPRulesHeader_def sizeof_WBPMeta_def sizeof_WBPSignal_def sizeof_WBPCondition_def
  sizeof_WBPAction_def sizeof_WBPActionParam_def sizeof_WBPRule_def
  WBP_MAGIC_RULES_def WBP_VERSION_def WBP_MIN_VERSION_def WBP_FLAG_HAS_META_def
  bodyOffset_def expectedSize_def

lemmas crc_defs =
  calculateCRC32_def esp_crc32_le_def crcByte_def crcBit_def mask_eq_exp_minus_1

lemma sample_body_crc:
  "calculateCRC32 (take 64 (drop 24 sampleRuleset)) = 0x578A00BF"
  by (simp add: sampleRuleset_def crc_defs)

lemma sample_header: "checkHeader sampleRuleset = Inr ()"
proof -
  have len: "length sampleRuleset = 88"
    by (simp add: sampleRuleset_def)
  have f: "h_magic sampleRuleset = 0xC0DE5702" "h_version sampleRuleset = 2"
    "h_flags sampleRuleset = 0" "h_totalSize sampleRuleset = 88"
    "h_stringTableOffset sampleRuleset = 86" "h_crc32 sampleRuleset = 0x578A00BF"
    "expectedSize sampleRuleset = 86"
    by (simp_all add: sampleRuleset_def wire_defs)
  show ?thesis
    unfolding checkHeader_def len f Let_def
    using sample_body_crc
    by (simp add: wire_defs f)
qed

lemma sample_parse:
  "parseRules sampleRuleset =
     Inr ([mkSignal 0x100 0 8 False False 1 0, mkSignal 0x100 8 8 False False 1 0],
          [\<lparr>signalIdx = 0, operation = WITHIN, value1 = 10, value2 = 5, holdMs = 0,
            holdStartMs = 0, holdActive = False, lastResult = False\<rparr>],
          [\<lparr>capabilityId = [0x61], params = []\<rparr>],
          [\<lparr>conditionMask = 1, actionStartIdx = 0, actionCount = 1, debounceMs = 0,
            cooldownMs = 0, lastTriggerMs = 0, lastConditionChangeMs = 0,
            lastConditionState = False\<rparr>])"
proof -
  have cnt: "h_signalCount sampleRuleset = 2" "h_conditionCount sampleRuleset = 1"
    "h_actionCount sampleRuleset = 1" "h_ruleCount sampleRuleset = 1"
    "h_actionParamCount sampleRuleset = 0" "h_totalSize sampleRuleset = 88"
    "h_stringTableOffset sampleRuleset = 86" "bodyOffset sampleRuleset = 24"
    by (simp_all add: sampleRuleset_def wire_defs)
  have sigs: "map (parseSignal sampleRuleset 24) [0..<unat (2 :: u8)] =
      [mkSignal 0x100 0 8 False False 1 0, mkSignal 0x100 8 8 False False 1 0]"
    by (simp add: upt_rec parseSignal_def sampleRuleset_def wire_defs)
  have conds: "mapE (parseCondition sampleRuleset (24 + unat (2 :: u8) * sizeof_WBPSignal))
        [0..<unat (1 :: u8)] =
      Inr [\<lparr>signalIdx = 0, operation = WITHIN, value1 = 10, value2 = 5, holdMs = 0,
            holdStartMs = 0, holdActive = False, lastResult = False\<rparr>]"
    by (simp add: parseCondition_def operationOfCode_def sampleRuleset_def wire_defs)
  have acts: "mapE (parseAction sampleRuleset
        (24 + unat (2 :: u8) * sizeof_WBPSignal + unat (1 :: u8) * sizeof_WBPCondition)
        (24 + unat (2 :: u8) * sizeof_WBPSignal + unat (1 :: u8) * sizeof_WBPCondition +
         unat (1 :: u8) * sizeof_WBPAction)
        (take (unat (88 :: u16) - unat (86 :: u16)) (drop (unat (86 :: u16)) sampleRuleset)))
        [0..<unat (1 :: u8)] =
      Inr [\<lparr>capabilityId = [0x61], params = []\<rparr>]"
    by (simp add: parseAction_def readStringFromTable_def sampleRuleset_def wire_defs)
  have rls: "mapE (parseRule sampleRuleset
        (24 + unat (2 :: u8) * sizeof_WBPSignal + unat (1 :: u8) * sizeof_WBPCondition +
         unat (1 :: u8) * sizeof_WBPAction + unat (0 :: u16) * sizeof_WBPActionParam))
        [0..<unat (1 :: u8)] =
      Inr [\<lparr>conditionMask = 1, actionStartIdx = 0, actionCount = 1, debounceMs = 0,
            cooldownMs = 0, lastTriggerMs = 0, lastConditionChangeMs = 0,
            lastConditionState = False\<rparr>]"
    by (simp add: parseRule_def upt_rec sampleRuleset_def wire_defs)
  show ?thesis
    unfolding parseRules_def sample_header cnt Let_def sigs conds acts rls
    by simp
qed


lemma bad_parse: "parseRules badOffsetAndCrc = Inl CrcMismatch"
proof -
  have f: "length badOffsetAndCrc = 24" "h_magic badOffsetAndCrc = 0xC0DE5702"
    "h_version badOffsetAndCrc = 2" "h_totalSize badOffsetAndCrc = 24"
    "h_crc32 badOffsetAndCrc = 1"
    by (simp_all add: badOffsetAndCrc_def wire_defs)
  show ?thesis
    unfolding parseRules_def checkHeader_def f Let_def
    by (simp add: wire_defs crc_defs)
qed

text \<open>
  C2, as the code has it. The checks of the header run in this order: the length of the
  input, the magic, the version, the declared size, the CRC of the body, the string
  table offset, the counts. Each line of the theorem takes an input that passes the
  checks before one of them and fails that one, and gives the error the parser reports.
  In particular an input that passes the checks of length, magic, version and declared
  size and whose body CRC differs from the \<open>crc32\<close> field is rejected with
  \<open>CrcMismatch\<close>, whatever its string table offset and its counts are; the errors
  of the string table offset and of the counts are reported only when the CRC matches.
\<close>

theorem C2_header_check_order:
  "(length d < sizeof_WBPRulesHeader \<longrightarrow> parseRules d = Inl ShortHeader) \<and>
   (sizeof_WBPRulesHeader \<le> length d \<and> h_magic d \<noteq> WBP_MAGIC_RULES \<longrightarrow>
      parseRules d = Inl BadMagic) \<and>
   (sizeof_WBPRulesHeader \<le> length d \<and> h_magic d = WBP_MAGIC_RULES \<and>
    (h_version d < WBP_MIN_VERSION \<or> WBP_VERSION < h_version d) \<longrightarrow>
      parseRules d = Inl UnsupportedVersion) \<and>
   (sizeof_WBPRulesHeader \<le> length d \<and> h_magic d = WBP_MAGIC_RULES \<and>
    WBP_MIN_VERSION \<le> h_version d \<and> h_version d \<le> WBP_VERSION \<and>
    (length d < unat (h_totalSize d) \<or> unat (h_totalSize d) < sizeof_WBPRulesHeader) \<longrightarrow>
      parseRules d = Inl TruncatedBody) \<and>
   (sizeof_WBPRulesHeader \<le> length d \<and> h_magic d = WBP_MAGIC_RULES \<and>
    WBP_MIN_VERSION \<le> h_version d \<and> h_version d \<le> WBP_VERSION \<and>
    unat (h_totalSize d) \<le> length d \<and> sizeof_WBPRulesHeader \<le> unat (h_totalSize d) \<and>
    calculateCRC32 (take (unat (h_totalSize d) - sizeof_WBPRulesHeader)
      (drop sizeof_WBPRulesHeader d)) \<noteq> h_crc32 d \<longrightarrow>
      parseRules d = Inl CrcMismatch) \<and>
   (sizeof_WBPRulesHeader \<le> length d \<and> h_magic d = WBP_MAGIC_RULES \<and>
    WBP_MIN_VERSION \<le> h_version d \<and> h_version d \<le> WBP_VERSION \<and>
    unat (h_totalSize d) \<le> length d \<and> sizeof_WBPRulesHeader \<le> unat (h_totalSize d) \<and>
    calculateCRC32 (take (unat (h_totalSize d) - sizeof_WBPRulesHeader)
      (drop sizeof_WBPRulesHeader d)) = h_crc32 d \<and>
    (unat (h_stringTableOffset d) < bodyOffset d \<or>
     unat (h_totalSize d) \<le> unat (h_stringTableOffset d)) \<longrightarrow>
      parseRules d = Inl BadStringTableOffset) \<and>
   (sizeof_WBPRulesHeader \<le> length d \<and> h_magic d = WBP_MAGIC_RULES \<and>
    WBP_MIN_VERSION \<le> h_version d \<and> h_version d \<le> WBP_VERSION \<and>
    unat (h_totalSize d) \<le> length d \<and> sizeof_WBPRulesHeader \<le> unat (h_totalSize d) \<and>
    calculateCRC32 (take (unat (h_totalSize d) - sizeof_WBPRulesHeader)
      (drop sizeof_WBPRulesHeader d)) = h_crc32 d \<and>
    bodyOffset d \<le> unat (h_stringTableOffset d) \<and>
    unat (h_stringTableOffset d) < unat (h_totalSize d) \<and>
    (length d < expectedSize d \<or> unat (h_stringTableOffset d) < expectedSize d) \<longrightarrow>
      parseRules d = Inl CountsOverflow)"
proof (intro conjI impI)
  assume "length d < sizeof_WBPRulesHeader"
  then show "parseRules d = Inl ShortHeader"
    by (simp add: parseRules_def checkHeader_def Let_def)
next
  assume "sizeof_WBPRulesHeader \<le> length d \<and> h_magic d \<noteq> WBP_MAGIC_RULES"
  then show "parseRules d = Inl BadMagic"
    by (simp add: parseRules_def checkHeader_def Let_def not_less [symmetric])
next
  assume "sizeof_WBPRulesHeader \<le> length d \<and> h_magic d = WBP_MAGIC_RULES \<and>
    (h_version d < WBP_MIN_VERSION \<or> WBP_VERSION < h_version d)"
  then show "parseRules d = Inl UnsupportedVersion"
    by (simp add: parseRules_def checkHeader_def Let_def not_less [symmetric])
next
  assume "sizeof_WBPRulesHeader \<le> length d \<and> h_magic d = WBP_MAGIC_RULES \<and>
    WBP_MIN_VERSION \<le> h_version d \<and> h_version d \<le> WBP_VERSION \<and>
    (length d < unat (h_totalSize d) \<or> unat (h_totalSize d) < sizeof_WBPRulesHeader)"
  then show "parseRules d = Inl TruncatedBody"
    by (auto simp add: parseRules_def checkHeader_def Let_def not_less [symmetric])
next
  assume "sizeof_WBPRulesHeader \<le> length d \<and> h_magic d = WBP_MAGIC_RULES \<and>
    WBP_MIN_VERSION \<le> h_version d \<and> h_version d \<le> WBP_VERSION \<and>
    unat (h_totalSize d) \<le> length d \<and> sizeof_WBPRulesHeader \<le> unat (h_totalSize d) \<and>
    calculateCRC32 (take (unat (h_totalSize d) - sizeof_WBPRulesHeader)
      (drop sizeof_WBPRulesHeader d)) \<noteq> h_crc32 d"
  then show "parseRules d = Inl CrcMismatch"
    by (simp add: parseRules_def checkHeader_def Let_def not_less [symmetric])
next
  assume "sizeof_WBPRulesHeader \<le> length d \<and> h_magic d = WBP_MAGIC_RULES \<and>
    WBP_MIN_VERSION \<le> h_version d \<and> h_version d \<le> WBP_VERSION \<and>
    unat (h_totalSize d) \<le> length d \<and> sizeof_WBPRulesHeader \<le> unat (h_totalSize d) \<and>
    calculateCRC32 (take (unat (h_totalSize d) - sizeof_WBPRulesHeader)
      (drop sizeof_WBPRulesHeader d)) = h_crc32 d \<and>
    (unat (h_stringTableOffset d) < bodyOffset d \<or>
     unat (h_totalSize d) \<le> unat (h_stringTableOffset d))"
  then show "parseRules d = Inl BadStringTableOffset"
    by (auto simp add: parseRules_def checkHeader_def Let_def not_less [symmetric])
next
  assume "sizeof_WBPRulesHeader \<le> length d \<and> h_magic d = WBP_MAGIC_RULES \<and>
    WBP_MIN_VERSION \<le> h_version d \<and> h_version d \<le> WBP_VERSION \<and>
    unat (h_totalSize d) \<le> length d \<and> sizeof_WBPRulesHeader \<le> unat (h_totalSize d) \<and>
    calculateCRC32 (take (unat (h_totalSize d) - sizeof_WBPRulesHeader)
      (drop sizeof_WBPRulesHeader d)) = h_crc32 d \<and>
    bodyOffset d \<le> unat (h_stringTableOffset d) \<and>
    unat (h_stringTableOffset d) < unat (h_totalSize d) \<and>
    (length d < expectedSize d \<or> unat (h_stringTableOffset d) < expectedSize d)"
  then show "parseRules d = Inl CountsOverflow"
    by (auto simp add: parseRules_def checkHeader_def Let_def not_less [symmetric])
qed

lemma header_samples:
  "length zeroHeader = 24" "h_magic zeroHeader = 0"
  "length oldVersionHeader = 24" "h_magic oldVersionHeader = 0xC0DE5702"
  "h_version oldVersionHeader = 1"
  "length smallSizeHeader = 24" "h_magic smallSizeHeader = 0xC0DE5702"
  "h_version smallSizeHeader = 2" "h_totalSize smallSizeHeader = 0"
  "length badOffsetHeader = 24" "h_magic badOffsetHeader = 0xC0DE5702"
  "h_version badOffsetHeader = 2" "h_totalSize badOffsetHeader = 24"
  "h_crc32 badOffsetHeader = 0" "h_stringTableOffset badOffsetHeader = 0"
  "h_flags badOffsetHeader = 0"
  "length countsOverflowInput = 25" "h_magic countsOverflowInput = 0xC0DE5702"
  "h_version countsOverflowInput = 2" "h_totalSize countsOverflowInput = 25"
  "h_crc32 countsOverflowInput = 0xD202EF8D" "h_stringTableOffset countsOverflowInput = 24"
  "h_flags countsOverflowInput = 0" "expectedSize countsOverflowInput = 40"
  by (simp_all add: zeroHeader_def oldVersionHeader_def smallSizeHeader_def badOffsetHeader_def
      countsOverflowInput_def wire_defs)


theorem C2_header_check_order_witness:
  "parseRules [] = Inl ShortHeader \<and>
   h_magic zeroHeader \<noteq> WBP_MAGIC_RULES \<and> h_version zeroHeader < WBP_MIN_VERSION \<and>
   parseRules zeroHeader = Inl BadMagic \<and>
   h_version oldVersionHeader < WBP_MIN_VERSION \<and>
   unat (h_totalSize oldVersionHeader) < sizeof_WBPRulesHeader \<and>
   parseRules oldVersionHeader = Inl UnsupportedVersion \<and>
   unat (h_totalSize smallSizeHeader) < sizeof_WBPRulesHeader \<and>
   calculateCRC32 [] \<noteq> h_crc32 smallSizeHeader \<and>
   parseRules smallSizeHeader = Inl TruncatedBody \<and>
   sizeof_WBPRulesHeader \<le> length badOffsetAndCrc \<and>
   h_magic badOffsetAndCrc = WBP_MAGIC_RULES \<and>
   WBP_MIN_VERSION \<le> h_version badOffsetAndCrc \<and>
   h_version badOffsetAndCrc \<le> WBP_VERSION \<and>
   unat (h_totalSize badOffsetAndCrc) \<le> length badOffsetAndCrc \<and>
   sizeof_WBPRulesHeader \<le> unat (h_totalSize badOffsetAndCrc) \<and>
   calculateCRC32 (take (unat (h_totalSize badOffsetAndCrc) - sizeof_WBPRulesHeader)
     (drop sizeof_WBPRulesHeader badOffsetAndCrc)) \<noteq> h_crc32 badOffsetAndCrc \<and>
   parseRules badOffsetAndCrc = Inl CrcMismatch \<and>
   unat (h_stringTableOffset badOffsetHeader) < bodyOffset badOffsetHeader \<and>
   length badOffsetHeader < expectedSize badOffsetHeader \<and>
   parseRules badOffsetHeader = Inl BadStringTableOffset \<and>
   length countsOverflowInput < expectedSize countsOverflowInput \<and>
   parseRules countsOverflowInput = Inl CountsOverflow"
proof -
  note hs = header_samples
  note k = sizeof_WBPRulesHeader_def WBP_MAGIC_RULES_def WBP_VERSION_def WBP_MIN_VERSION_def
    bodyOffset_def WBP_FLAG_HAS_META_def sizeof_WBPMeta_def
  have s1: "parseRules [] = Inl ShortHeader"
    by (rule C2_header_check_order [of "[]", THEN conjunct1, THEN mp]) (simp add: k)
  have z: "h_magic zeroHeader \<noteq> WBP_MAGIC_RULES" "h_version zeroHeader < WBP_MIN_VERSION"
    by (simp_all add: zeroHeader_def wire_defs)
  have s2: "parseRules zeroHeader = Inl BadMagic"
    by (rule C2_header_check_order [of zeroHeader, THEN conjunct2, THEN conjunct1, THEN mp])
      (simp add: hs k)
  have v: "h_version oldVersionHeader < WBP_MIN_VERSION"
    "unat (h_totalSize oldVersionHeader) < sizeof_WBPRulesHeader"
    by (simp_all add: oldVersionHeader_def wire_defs)
  have s3: "parseRules oldVersionHeader = Inl UnsupportedVersion"
    by (rule C2_header_check_order [of oldVersionHeader, THEN conjunct2, THEN conjunct2, THEN conjunct1, THEN mp])
      (simp add: hs k)
  have t: "unat (h_totalSize smallSizeHeader) < sizeof_WBPRulesHeader"
    "calculateCRC32 [] \<noteq> h_crc32 smallSizeHeader"
    by (simp_all add: smallSizeHeader_def wire_defs crc_defs)
  have s4: "parseRules smallSizeHeader = Inl TruncatedBody"
    by (rule C2_header_check_order [of smallSizeHeader, THEN conjunct2, THEN conjunct2, THEN conjunct2,
          THEN conjunct1, THEN mp])
      (simp add: hs k)
  have f: "length badOffsetAndCrc = 24" "h_magic badOffsetAndCrc = 0xC0DE5702"
    "h_version badOffsetAndCrc = 2" "h_totalSize badOffsetAndCrc = 24"
    "h_crc32 badOffsetAndCrc = 1"
    by (simp_all add: badOffsetAndCrc_def wire_defs)
  have h: "sizeof_WBPRulesHeader \<le> length badOffsetAndCrc"
    "h_magic badOffsetAndCrc = WBP_MAGIC_RULES"
    "WBP_MIN_VERSION \<le> h_version badOffsetAndCrc"
    "h_version badOffsetAndCrc \<le> WBP_VERSION"
    "unat (h_totalSize badOffsetAndCrc) \<le> length badOffsetAndCrc"
    "sizeof_WBPRulesHeader \<le> unat (h_totalSize badOffsetAndCrc)"
    "calculateCRC32 (take (unat (h_totalSize badOffsetAndCrc) - sizeof_WBPRulesHeader)
       (drop sizeof_WBPRulesHeader badOffsetAndCrc)) \<noteq> h_crc32 badOffsetAndCrc"
    unfolding f by (simp_all add: wire_defs crc_defs)
  have s5: "parseRules badOffsetAndCrc = Inl CrcMismatch"
    by (rule C2_header_check_order [of badOffsetAndCrc, THEN conjunct2, THEN conjunct2, THEN conjunct2,
          THEN conjunct2, THEN conjunct1, THEN mp])
      (intro conjI h)
  have o: "unat (h_stringTableOffset badOffsetHeader) < bodyOffset badOffsetHeader"
    "length badOffsetHeader < expectedSize badOffsetHeader"
    by (simp_all add: badOffsetHeader_def wire_defs)
  have oc: "calculateCRC32 (take (unat (h_totalSize badOffsetHeader) - sizeof_WBPRulesHeader)
       (drop sizeof_WBPRulesHeader badOffsetHeader)) = h_crc32 badOffsetHeader"
    unfolding hs by (simp add: wire_defs crc_defs)
  have s6: "parseRules badOffsetHeader = Inl BadStringTableOffset"
    by (rule C2_header_check_order [of badOffsetHeader, THEN conjunct2, THEN conjunct2, THEN conjunct2,
          THEN conjunct2, THEN conjunct2, THEN conjunct1, THEN mp])
      (simp add: oc o(1), simp add: hs k)
  have c: "length countsOverflowInput < expectedSize countsOverflowInput"
    by (simp add: hs)
  have cc: "calculateCRC32
       (take (unat (h_totalSize countsOverflowInput) - sizeof_WBPRulesHeader)
       (drop sizeof_WBPRulesHeader countsOverflowInput)) = h_crc32 countsOverflowInput"
    unfolding hs by (simp add: wire_defs crc_defs countsOverflowInput_def)
  have s7: "parseRules countsOverflowInput = Inl CountsOverflow"
    by (rule C2_header_check_order [of countsOverflowInput, THEN conjunct2, THEN conjunct2, THEN conjunct2,
          THEN conjunct2, THEN conjunct2, THEN conjunct2, THEN mp])
      (simp add: cc c, simp add: hs k)
  show ?thesis
    by (intro conjI s1 z s2 v s3 t s4 h s5 o s6 c s7)
qed

text \<open>
  C2 as stated fails: this header passes the first four checks, its string table offset
  0 lies before the end of the header, and its CRC field differs from the CRC of its
  (empty) body. The parser reports the CRC, not the offset.
\<close>

theorem C2_offset_error_first_counterexample:
  "unat (h_stringTableOffset badOffsetAndCrc) < bodyOffset badOffsetAndCrc \<and>
   calculateCRC32 (take (unat (h_totalSize badOffsetAndCrc) - sizeof_WBPRulesHeader)
     (drop sizeof_WBPRulesHeader badOffsetAndCrc)) \<noteq> h_crc32 badOffsetAndCrc \<and>
   parseRules badOffsetAndCrc = Inl CrcMismatch \<and>
   parseRules badOffsetAndCrc \<noteq> Inl BadStringTableOffset \<and>
   parseRules badOffsetAndCrc \<noteq> Inl CountsOverflow"
proof -
  have f: "h_stringTableOffset badOffsetAndCrc = 0" "h_flags badOffsetAndCrc = 0"
    "h_totalSize badOffsetAndCrc = 24" "h_crc32 badOffsetAndCrc = 1"
    by (simp_all add: badOffsetAndCrc_def wire_defs)
  have "unat (h_stringTableOffset badOffsetAndCrc) < bodyOffset badOffsetAndCrc"
    unfolding bodyOffset_def f by (simp add: wire_defs)
  moreover have "calculateCRC32 (take (unat (h_totalSize badOffsetAndCrc) - sizeof_WBPRulesHeader)
     (drop sizeof_WBPRulesHeader badOffsetAndCrc)) \<noteq> h_crc32 badOffsetAndCrc"
    unfolding f by (simp add: wire_defs crc_defs)
  ultimately show ?thesis
    by (simp add: bad_parse)
qed

lemma firstUnknown_Some:
  "firstUnknown h as = Some c \<Longrightarrow>
   \<exists>pre a post. as = pre @ a # post \<and> (\<forall>b\<in>set pre. capabilityId b \<in> h) \<and>
      capabilityId a \<notin> h \<and> c = capabilityId a"
proof (induction as)
  case Nil
  then show ?case by simp
next
  case (Cons x xs)
  show ?case
  proof (cases "capabilityId x \<in> h")
    case False
    then have "x # xs = [] @ x # xs \<and> (\<forall>b\<in>set []. capabilityId b \<in> h) \<and>
        capabilityId x \<notin> h \<and> c = capabilityId x"
      using Cons.prems by simp
    then show ?thesis by blast
  next
    case True
    then have "firstUnknown h xs = Some c" using Cons.prems by simp
    from Cons.IH [OF this] obtain pre a post where
      "xs = pre @ a # post" "\<forall>b\<in>set pre. capabilityId b \<in> h"
      "capabilityId a \<notin> h" "c = capabilityId a"
      by blast
    then have "x # xs = (x # pre) @ a # post \<and> (\<forall>b\<in>set (x # pre). capabilityId b \<in> h) \<and>
        capabilityId a \<notin> h \<and> c = capabilityId a"
      using True by simp
    then show ?thesis by blast
  qed
qed

lemma firstUnknown_None:
  "firstUnknown h as = None \<longleftrightarrow> (\<forall>a\<in>set as. capabilityId a \<in> h)"
  by (induction as) auto

text \<open>
  C1. If \<open>loadRuleset\<close> fails, the four tables, the signal lookup, the retained binary,
  the CRC, the trigger counter, the handlers and the debug overlay are those before the
  call; if it fails although the buffer parses, then the parsed actions are registered
  up to a first one that is not, and \<open>getUnknownCapability\<close> returns the id of that
  action. If it succeeds, the buffer parses, every parsed action is registered, and the
  engine holds the parsed tables, the buffer and its CRC.
\<close>

theorem C1_install_atomic:
  assumes "loadRuleset data e = (ok, e')"
  shows "(\<not> ok \<longrightarrow>
            signals e' = signals e \<and> conditions e' = conditions e \<and>
            actions e' = actions e \<and> rules e' = rules e \<and>
            signalMap e' = signalMap e \<and> rulesetBinary e' = rulesetBinary e \<and>
            rulesetCRC e' = rulesetCRC e \<and> rulesTriggered e' = rulesTriggered e \<and>
            handlers e' = handlers e \<and> debugSignals e' = debugSignals e \<and>
            debugDirtyQueue e' = debugDirtyQueue e) \<and>
         (\<forall>sg cs as rs. \<not> ok \<and> parseRules data = Inr (sg, cs, as, rs) \<longrightarrow>
            (\<exists>pre a post. as = pre @ a # post \<and>
               (\<forall>b\<in>set pre. capabilityId b \<in> handlers e) \<and>
               capabilityId a \<notin> handlers e \<and>
               getUnknownCapability e' = capabilityId a)) \<and>
         (ok \<longrightarrow>
            (\<exists>sg cs as rs. parseRules data = Inr (sg, cs, as, rs) \<and>
               (\<forall>a\<in>set as. capabilityId a \<in> handlers e) \<and>
               signals e' = sg \<and> conditions e' = cs \<and> actions e' = as \<and> rules e' = rs \<and>
               rulesetBinary e' = data \<and> rulesetCRC e' = calculateCRC32 data))"
proof (cases "parseRules data")
  case (Inl err)
  then show ?thesis
    using assms by (auto simp add: loadRuleset_def)
next
  case (Inr tabs)
  obtain sg cs as rs where tabs: "tabs = (sg, cs, as, rs)"
    by (cases tabs) auto
  show ?thesis
  proof (cases "firstUnknown (handlers e) as")
    case None
    then have "\<forall>a\<in>set as. capabilityId a \<in> handlers e"
      by (simp add: firstUnknown_None)
    then show ?thesis
      using assms Inr tabs None by (auto simp add: loadRuleset_def)
  next
    case (Some c)
    from firstUnknown_Some [OF Some] obtain pre a post where
      "as = pre @ a # post" "\<forall>b\<in>set pre. capabilityId b \<in> handlers e"
      "capabilityId a \<notin> handlers e" "c = capabilityId a"
      by blast
    moreover have "\<not> ok" "e' = e\<lparr>unknownCapability := c\<rparr>"
      using assms Inr tabs Some by (auto simp add: loadRuleset_def)
    ultimately show ?thesis
      using Inr tabs by (auto simp add: getUnknownCapability_def)
  qed
qed

theorem C1_install_atomic_witness:
  "\<exists>e'. loadRuleset sampleRuleset newEngine = (False, e') \<and>
     signals e' = [] \<and> conditions e' = [] \<and> actions e' = [] \<and> rules e' = [] \<and>
     rulesetBinary e' = [] \<and> rulesetCRC e' = 0 \<and>
     getUnknownCapability e' = [0x61]"
proof -
  obtain e' where l: "loadRuleset sampleRuleset newEngine = (False, e')"
    by (simp add: loadRuleset_def sample_parse newEngine_def)
  note t = C1_install_atomic [OF l]
  from t have a: "signals e' = [] \<and> conditions e' = [] \<and> actions e' = [] \<and> rules e' = [] \<and>
     rulesetBinary e' = [] \<and> rulesetCRC e' = 0"
    by (simp add: newEngine_def)
  from t sample_parse obtain pre a post where
    p: "[\<lparr>capabilityId = [0x61 :: u8], params = []\<rparr>] = pre @ a # post"
    "getUnknownCapability e' = capabilityId a"
    by auto
  from p(1) have "pre = []" "a = \<lparr>capabilityId = [0x61 :: u8], params = []\<rparr>"
    by (simp_all add: Cons_eq_append_conv)
  with p(2) have "getUnknownCapability e' = [0x61]"
    by simp
  with l a show ?thesis
    by blast
qed

section \<open>The installed sample ruleset\<close>

lemma sampleEngine_installed:
  "loadRuleset sampleRuleset (registerCapability [0x61] newEngine) = (True, sampleEngine)"
  by (simp add: sampleEngine_def loadRuleset_def sample_parse registerCapability_def
      newEngine_def)

lemma sampleEngine_tables:
  "signals sampleEngine = [mkSignal 0x100 0 8 False False 1 0, mkSignal 0x100 8 8 False False 1 0]"
  "conditions sampleEngine =
     [\<lparr>signalIdx = 0, operation = WITHIN, value1 = 10, value2 = 5, holdMs = 0,
       holdStartMs = 0, holdActive = False, lastResult = False\<rparr>]"
  "length (rules sampleEngine) = 1"
  "debugMode sampleEngine = False"
  by (simp_all add: sampleEngine_def loadRuleset_def sample_parse registerCapability_def
      newEngine_def)

lemma sampleEngine_map: "signalMap sampleEngine 0x100 = Some [0, 1]"
  by (simp add: sampleEngine_def loadRuleset_def sample_parse registerCapability_def
      newEngine_def buildSignalMap_def pushIndex_def mkSignal_def upt_rec)

lemma decode_frame7:
  "decodeSignal (mkSignal 0x100 0 8 False False 1 0) (fdata frame7) = 7"
  "decodeSignal (mkSignal 0x100 8 8 False False 1 0) (fdata frame7) = 0"
proof -
  have "extractBits [7, 0, 0, 0, 0, 0, 0, 0] 0 8 False = 7"
    "extractBits [7, 0, 0, 0, 0, 0, 0, 0] 8 8 False = 0"
    by code_simp+
  then show
    "decodeSignal (mkSignal 0x100 0 8 False False 1 0) (fdata frame7) = 7"
    "decodeSignal (mkSignal 0x100 8 8 False False 1 0) (fdata frame7) = 0"
    by (simp_all add: decodeSignal_def mkSignal_def frame7_def)
qed

lemma sample_after_frame:
  "signals (processCanFrame frame7 50 sampleEngine) =
     [(mkSignal 0x100 0 8 False False 1 0)\<lparr>value := 7, lastUpdateMs := 50, everSet := True\<rparr>,
      (mkSignal 0x100 8 8 False False 1 0)\<lparr>lastUpdateMs := 50, everSet := True\<rparr>]"
  "conditions (processCanFrame frame7 50 sampleEngine) = conditions sampleEngine"
proof -
  have fid: "fid frame7 = 0x100" by (simp add: frame7_def)
  show "signals (processCanFrame frame7 50 sampleEngine) =
     [(mkSignal 0x100 0 8 False False 1 0)\<lparr>value := 7, lastUpdateMs := 50, everSet := True\<rparr>,
      (mkSignal 0x100 8 8 False False 1 0)\<lparr>lastUpdateMs := 50, everSet := True\<rparr>]"
    unfolding processCanFrame_def fid sampleEngine_map Let_def
    by (simp add: sampleEngine_tables updateSignal_def decode_frame7)
      (simp add: mkSignal_def)
  show "conditions (processCanFrame frame7 50 sampleEngine) = conditions sampleEngine"
    unfolding processCanFrame_def fid sampleEngine_map Let_def
    by (simp add: sampleEngine_tables)
qed

text \<open>
  C3. The sample container carries a \<open>WITHIN\<close> condition with the serialized values
  10 and 5. After its installation the condition still holds 10 and 5, in this order;
  a frame then sets its signal to 7, which lies between 5 and 10, and the condition
  evaluates to false.
\<close>

theorem C3_within_bounds_not_swapped:
  "loadRuleset sampleRuleset (registerCapability [0x61] newEngine) = (True, sampleEngine) \<and>
   map operation (conditions sampleEngine) = [WITHIN] \<and>
   map value1 (conditions sampleEngine) = [10] \<and>
   map value2 (conditions sampleEngine) = [5] \<and>
   map value (signals (processCanFrame frame7 50 sampleEngine)) = [7, 0] \<and>
   evaluateCondition (signals (processCanFrame frame7 50 sampleEngine))
     (conditions (processCanFrame frame7 50 sampleEngine) ! 0) 60 =
     Inr (False, conditions sampleEngine ! 0)"
proof -
  have "evaluateCondition (signals (processCanFrame frame7 50 sampleEngine))
     (conditions (processCanFrame frame7 50 sampleEngine) ! 0) 60 =
     Inr (False, conditions sampleEngine ! 0)"
    unfolding sample_after_frame sampleEngine_tables
    by (simp add: evaluateCondition_def elemAt_def compareOp_def)
  moreover have "map value (signals (processCanFrame frame7 50 sampleEngine)) = [7, 0]"
    unfolding sample_after_frame by (simp add: mkSignal_def)
  ultimately show ?thesis
    using sampleEngine_installed by (simp add: sampleEngine_tables)
qed

lemma decimal_digit: "n < 10 \<Longrightarrow> decimal n = [decDigit n]"
  by (subst decimal.simps) simp

lemma decimal_5000: "decimal 5000 = ''5000''"
  by (subst decimal.simps, simp)+ (simp add: decDigit_def)

text \<open>
  C8. With the sample ruleset installed, two signals share the CAN id \<open>0x100\<close>: the
  number of distinct CAN ids is 1, and the fourth number of the status frame is the
  signal count 2.
\<close>

theorem C8_status_fourth_field_is_signal_count:
  "card (canId ` set (signals sampleEngine)) = 1 \<and>
   sendStatus True 5000 \<lparr>engine = sampleEngine, bootCount = 3, rulesMode = 1\<rparr> =
     Some ''S:1:2:1:2:5000:3''"
proof -
  have "card (canId ` set (signals sampleEngine)) = 1"
    by (simp add: sampleEngine_tables mkSignal_def)
  moreover have "sendStatus True 5000 \<lparr>engine = sampleEngine, bootCount = 3, rulesMode = 1\<rparr> =
     Some ''S:1:2:1:2:5000:3''"
    by (simp add: sendStatus_def sampleEngine_tables decimal_digit decimal_5000 decDigit_def)
  ultimately show ?thesis by simp
qed

section \<open>The dirty queue of the debug overlay\<close>

lemma pushIndex_range:
  assumes "\<forall>k l. m k = Some l \<longrightarrow> (\<forall>idx\<in>set l. idx < n)" and "i < n"
  shows "\<forall>k l. pushIndex m c i k = Some l \<longrightarrow> (\<forall>idx\<in>set l. idx < n)"
proof (intro allI impI)
  fix k l assume p: "pushIndex m c i k = Some l"
  show "\<forall>idx\<in>set l. idx < n"
  proof (cases "k = c")
    case False
    then have "m k = Some l" using p by (simp add: pushIndex_def)
    then show ?thesis using assms(1) by blast
  next
    case True
    show ?thesis
    proof (cases "m c")
      case None
      then have "l = [i]" using p True by (simp add: pushIndex_def)
      then show ?thesis using assms(2) by simp
    next
      case (Some old)
      then have "l = old @ [i]" using p True by (simp add: pushIndex_def)
      moreover have "\<forall>idx\<in>set old. idx < n" using assms(1) Some by blast
      ultimately show ?thesis using assms(2) by simp
    qed
  qed
qed

lemma fold_pushIndex_range:
  assumes "\<forall>k l. m k = Some l \<longrightarrow> (\<forall>idx\<in>set l. idx < n)" and "\<forall>i\<in>set xs. i < n"
  shows "\<forall>k l. fold (\<lambda>idx m. pushIndex m (f idx) idx) xs m k = Some l \<longrightarrow>
           (\<forall>idx\<in>set l. idx < n)"
  using assms
proof (induction xs arbitrary: m)
  case Nil
  then show ?case by simp
next
  case (Cons x xs)
  have "\<forall>k l. pushIndex m (f x) x k = Some l \<longrightarrow> (\<forall>idx\<in>set l. idx < n)"
    using pushIndex_range [of m n x "f x"] Cons.prems by simp
  from Cons.IH [OF this] Cons.prems(2) show ?case by simp
qed

lemma buildSignalMap_range:
  "buildSignalMap sigs k = Some l \<Longrightarrow> \<forall>idx\<in>set l. idx < length sigs"
  using fold_pushIndex_range [of Map.empty "length sigs" "[0..<length sigs]"
      "\<lambda>idx. canId (sigs ! idx)"]
  by (simp add: buildSignalMap_def)

lemma decodeSignal_updateSignal:
  "decodeSignal (updateSignal data now sig) data' = decodeSignal sig data'"
proof -
  have "startBit (updateSignal data now sig) = startBit sig"
    "bitLength (updateSignal data now sig) = bitLength sig"
    "bigEndian (updateSignal data now sig) = bigEndian sig"
    "isSigned (updateSignal data now sig) = isSigned sig"
    "factor (updateSignal data now sig) = factor sig"
    "offset (updateSignal data now sig) = offset sig"
    by (simp_all add: updateSignal_def)
  then show ?thesis
    unfolding decodeSignal_def Let_def by simp
qed

lemma updateSignal_fields:
  "value (updateSignal data now sig) = decodeSignal sig data"
  "lastDebugValue (updateSignal data now sig) = lastDebugValue sig"
  by (simp_all add: updateSignal_def)

lemma debugStep_queueInv:
  assumes "idx < length sigs" and "queueInv head (sigs, flags, queue)"
  shows "queueInv head (debugStep data now idx (sigs, flags, queue))"
proof -
  from assms(2) have inv: "length flags = length sigs" "head \<le> length queue"
    "length queue \<le> 64" "distinct (drop head queue)"
    "\<forall>i\<in>set (drop head queue). i < length sigs \<and> flags ! i"
    by (simp_all add: queueInv_def)
  let ?sig = "updateSignal data now (sigs ! idx)"
  show ?thesis
  proof (cases "\<bar>value ?sig - lastDebugValue ?sig\<bar> > debugThreshold \<and>
      \<not> flags ! idx \<and> length queue < 64")
    case False
    then have "debugStep data now idx (sigs, flags, queue) = (sigs[idx := ?sig], flags, queue)"
      by (auto simp add: debugStep_def Let_def)
    then show ?thesis using inv by (simp add: queueInv_def)
  next
    case True
    then have st: "debugStep data now idx (sigs, flags, queue) =
        (sigs[idx := ?sig], flags[idx := True], queue @ [idx])"
      by (simp add: debugStep_def Let_def)
    have notin: "idx \<notin> set (drop head queue)"
      using True inv(5) by blast
    have d: "drop head (queue @ [idx]) = drop head queue @ [idx]"
      using inv(2) by simp
    have "\<forall>i\<in>set (drop head queue @ [idx]). i < length sigs \<and> (flags[idx := True]) ! i"
      using inv(1,5) assms(1) by (auto simp add: nth_list_update)
    then show ?thesis
      unfolding st queueInv_def using inv True notin d by simp
  qed
qed

lemma enqueuedOkI:
  assumes "length sigs = length sigs0"
    and "\<forall>i<length sigs0. decodeSignal (sigs ! i) data = decodeSignal (sigs0 ! i) data \<and>
           lastDebugValue (sigs ! i) = lastDebugValue (sigs0 ! i)"
    and "queue = queue0 @ new"
    and "\<forall>idx\<in>set new. idx < length sigs0 \<and>
           \<bar>decodeSignal (sigs0 ! idx) data - lastDebugValue (sigs0 ! idx)\<bar> > debugThreshold"
  shows "enqueuedOk data sigs0 queue0 (sigs, flags, queue)"
  unfolding enqueuedOk_def using assms by blast

lemma debugStep_enqueuedOk:
  assumes "idx < length sigs0" and "enqueuedOk data sigs0 queue0 (sigs, flags, queue)"
  shows "enqueuedOk data sigs0 queue0 (debugStep data now idx (sigs, flags, queue))"
proof -
  from assms(2) obtain new where inv: "length sigs = length sigs0"
    "\<forall>i<length sigs0. decodeSignal (sigs ! i) data = decodeSignal (sigs0 ! i) data \<and>
       lastDebugValue (sigs ! i) = lastDebugValue (sigs0 ! i)"
    "queue = queue0 @ new"
    "\<forall>i\<in>set new. i < length sigs0 \<and>
       \<bar>decodeSignal (sigs0 ! i) data - lastDebugValue (sigs0 ! i)\<bar> > debugThreshold"
    by (auto simp add: enqueuedOk_def)
  let ?sig = "updateSignal data now (sigs ! idx)"
  have v: "value ?sig = decodeSignal (sigs0 ! idx) data"
    "lastDebugValue ?sig = lastDebugValue (sigs0 ! idx)"
    using inv(2) assms(1) by (simp_all add: updateSignal_fields)
  have keep: "\<forall>i<length sigs0.
      decodeSignal (sigs[idx := ?sig] ! i) data = decodeSignal (sigs0 ! i) data \<and>
      lastDebugValue (sigs[idx := ?sig] ! i) = lastDebugValue (sigs0 ! i)"
  proof (intro allI impI)
    fix i assume i: "i < length sigs0"
    show "decodeSignal (sigs[idx := ?sig] ! i) data = decodeSignal (sigs0 ! i) data \<and>
      lastDebugValue (sigs[idx := ?sig] ! i) = lastDebugValue (sigs0 ! i)"
    proof (cases "i = idx")
      case True
      then have "sigs[idx := ?sig] ! i = ?sig" using i inv(1) by simp
      then show ?thesis
        using inv(2) i True by (simp add: decodeSignal_updateSignal updateSignal_fields)
    next
      case False
      then have "sigs[idx := ?sig] ! i = sigs ! i" by simp
      then show ?thesis using inv(2) i by simp
    qed
  qed
  show ?thesis
  proof (cases "\<bar>value ?sig - lastDebugValue ?sig\<bar> > debugThreshold \<and>
      \<not> flags ! idx \<and> length queue < 64")
    case False
    then have "debugStep data now idx (sigs, flags, queue) = (sigs[idx := ?sig], flags, queue)"
      by (auto simp add: debugStep_def Let_def)
    then show ?thesis
      using enqueuedOkI [of "sigs[idx := ?sig]" sigs0 data queue queue0 new flags] inv keep
      by simp
  next
    case True
    then have st: "debugStep data now idx (sigs, flags, queue) =
        (sigs[idx := ?sig], flags[idx := True], queue @ [idx])"
      by (simp add: debugStep_def Let_def)
    have "queue @ [idx] = queue0 @ (new @ [idx])"
      using inv(3) by simp
    moreover have "\<forall>i\<in>set (new @ [idx]). i < length sigs0 \<and>
       \<bar>decodeSignal (sigs0 ! i) data - lastDebugValue (sigs0 ! i)\<bar> > debugThreshold"
      using inv(4) True v assms(1) by auto
    ultimately show ?thesis
      unfolding st
      using enqueuedOkI [of "sigs[idx := ?sig]" sigs0 data "queue @ [idx]" queue0 "new @ [idx]"
          "flags[idx := True]"] inv(1) keep
      by simp
  qed
qed

lemma debugStep_length:
  "length (fst (debugStep data now idx (sigs, flags, queue))) = length sigs"
  by (simp add: debugStep_def Let_def)

lemma fold_debugStep:
  assumes "\<forall>idx\<in>set l. idx < length sigs0"
    and "length (fst st) = length sigs0"
    and "queueInv head st" and "enqueuedOk data sigs0 queue0 st"
  shows "queueInv head (fold (debugStep data now) l st) \<and>
         enqueuedOk data sigs0 queue0 (fold (debugStep data now) l st) \<and>
         length (fst (fold (debugStep data now) l st)) = length sigs0"
  using assms
proof (induction l arbitrary: st)
  case Nil
  then show ?case by simp
next
  case (Cons idx l)
  obtain sigs flags queue where st: "st = (sigs, flags, queue)"
    by (cases st) auto
  have idx: "idx < length sigs0" "idx < length sigs"
    using Cons.prems(1,2) st by simp_all
  have a: "queueInv head (debugStep data now idx st)"
    using debugStep_queueInv [OF idx(2)] Cons.prems(3) st by simp
  have b: "enqueuedOk data sigs0 queue0 (debugStep data now idx st)"
    using debugStep_enqueuedOk [OF idx(1)] Cons.prems(4) st by simp
  have c: "length (fst (debugStep data now idx st)) = length sigs0"
    using debugStep_length Cons.prems(2) st by simp
  from Cons.IH [OF _ c a b] Cons.prems(1) show ?case by simp
qed


lemma debugInv_fields:
  assumes "debugSignals e' = debugSignals e" and "debugDirtyFlags e' = debugDirtyFlags e"
    and "debugDirtyQueue e' = debugDirtyQueue e" and "debugQueueHead e' = debugQueueHead e"
    and "debugSignalMap e' = debugSignalMap e"
  shows "debugInv e' = debugInv e"
  by (simp add: debugInv_def assms)

lemma loadRuleset_debug:
  "debugSignals (snd (loadRuleset data e)) = debugSignals e"
  "debugDirtyFlags (snd (loadRuleset data e)) = debugDirtyFlags e"
  "debugDirtyQueue (snd (loadRuleset data e)) = debugDirtyQueue e"
  "debugQueueHead (snd (loadRuleset data e)) = debugQueueHead e"
  "debugSignalMap (snd (loadRuleset data e)) = debugSignalMap e"
  by (simp_all add: loadRuleset_def split: sum.splits prod.splits option.splits)

lemma evaluateRules_debug:
  assumes "evaluateRules e now = Inr (e', outs)"
  shows "debugSignals e' = debugSignals e" "debugDirtyFlags e' = debugDirtyFlags e"
    "debugDirtyQueue e' = debugDirtyQueue e" "debugQueueHead e' = debugQueueHead e"
    "debugSignalMap e' = debugSignalMap e"
  using assms by (auto simp add: evaluateRules_def split: sum.splits prod.splits)

lemma processCanFrame_debug_fields:
  "(debugSignals (processCanFrame frame now e), debugDirtyFlags (processCanFrame frame now e),
    debugDirtyQueue (processCanFrame frame now e)) =
     (if debugMode e then
        (case debugSignalMap e (fid frame) of
           None \<Rightarrow> (debugSignals e, debugDirtyFlags e, debugDirtyQueue e)
         | Some l \<Rightarrow> fold (debugStep (fdata frame) now) l
                       (debugSignals e, debugDirtyFlags e, debugDirtyQueue e))
      else (debugSignals e, debugDirtyFlags e, debugDirtyQueue e))"
  "debugQueueHead (processCanFrame frame now e) = debugQueueHead e"
  "debugSignalMap (processCanFrame frame now e) = debugSignalMap e"
  by (simp_all add: processCanFrame_def Let_def split: option.splits prod.splits)

lemma enqueuedOk_start: "enqueuedOk data sigs queue (sigs, flags, queue)"
  by (rule enqueuedOkI [where new = "[]"]) simp_all

lemma processCanFrame_debugInv:
  assumes "debugInv e"
  shows "debugInv (processCanFrame frame now e) \<and>
         enqueuedOk (fdata frame) (debugSignals e) (debugDirtyQueue e)
           (debugSignals (processCanFrame frame now e),
            debugDirtyFlags (processCanFrame frame now e),
            debugDirtyQueue (processCanFrame frame now e))"
proof -
  let ?st = "(debugSignals e, debugDirtyFlags e, debugDirtyQueue e)"
  let ?e' = "processCanFrame frame now e"
  let ?st' = "(debugSignals ?e', debugDirtyFlags ?e', debugDirtyQueue ?e')"
  from assms have q: "queueInv (debugQueueHead e) ?st"
    and m: "\<forall>k l. debugSignalMap e k = Some l \<longrightarrow> (\<forall>idx\<in>set l. idx < length (debugSignals e))"
    by (simp_all add: debugInv_def)
  have step: "queueInv (debugQueueHead e) ?st' \<and>
      enqueuedOk (fdata frame) (debugSignals e) (debugDirtyQueue e) ?st' \<and>
      length (fst ?st') = length (debugSignals e)"
  proof (cases "debugMode e")
    case False
    then have "?st' = ?st" by (simp add: processCanFrame_debug_fields)
    then show ?thesis using q enqueuedOk_start by simp
  next
    case True
    show ?thesis
    proof (cases "debugSignalMap e (fid frame)")
      case None
      then have "?st' = ?st" using True by (simp add: processCanFrame_debug_fields)
      then show ?thesis using q enqueuedOk_start by simp
    next
      case (Some l)
      then have eq: "?st' = fold (debugStep (fdata frame) now) l ?st"
        using True by (simp add: processCanFrame_debug_fields)
      have l: "\<forall>idx\<in>set l. idx < length (debugSignals e)"
        using m Some by blast
      from fold_debugStep [OF l _ q enqueuedOk_start, of "fdata frame" now]
      show ?thesis unfolding eq by simp
    qed
  qed
  then have "debugInv ?e'"
    using m by (simp add: debugInv_def processCanFrame_debug_fields(2,3))
  with step show ?thesis by blast
qed

lemma loadDebugSignals_debugInv: "debugInv (snd (loadDebugSignals newSignals e))"
  using buildSignalMap_range [of newSignals]
  by (simp add: debugInv_def queueInv_def loadDebugSignals_def)

lemma popDirtyDebugSignal_debugInv:
  assumes "debugInv e"
  shows "debugInv (snd (snd (popDirtyDebugSignal e)))"
proof -
  from assms have inv: "length (debugDirtyFlags e) = length (debugSignals e)"
    "debugQueueHead e \<le> length (debugDirtyQueue e)" "length (debugDirtyQueue e) \<le> 64"
    "distinct (drop (debugQueueHead e) (debugDirtyQueue e))"
    "\<forall>i\<in>set (drop (debugQueueHead e) (debugDirtyQueue e)).
       i < length (debugSignals e) \<and> debugDirtyFlags e ! i"
    and m: "\<forall>k l. debugSignalMap e k = Some l \<longrightarrow> (\<forall>idx\<in>set l. idx < length (debugSignals e))"
    by (simp_all add: debugInv_def queueInv_def)
  show ?thesis
  proof (cases "debugQueueHead e \<ge> length (debugDirtyQueue e)")
    case True
    then show ?thesis
      using inv m by (simp add: popDirtyDebugSignal_def debugInv_def queueInv_def)
  next
    case False
    then have h: "debugQueueHead e < length (debugDirtyQueue e)" by simp
    let ?idx = "debugDirtyQueue e ! debugQueueHead e"
    have split: "drop (debugQueueHead e) (debugDirtyQueue e) =
        ?idx # drop (Suc (debugQueueHead e)) (debugDirtyQueue e)"
      using h by (simp add: Cons_nth_drop_Suc)
    have d: "distinct (drop (Suc (debugQueueHead e)) (debugDirtyQueue e))"
      "?idx \<notin> set (drop (Suc (debugQueueHead e)) (debugDirtyQueue e))"
      using inv(4) unfolding split by simp_all
    have rest: "\<forall>i\<in>set (drop (Suc (debugQueueHead e)) (debugDirtyQueue e)).
        i < length (debugSignals e) \<and> debugDirtyFlags e ! i"
      using inv(5) unfolding split by simp
    have rest': "\<forall>i\<in>set (drop (Suc (debugQueueHead e)) (debugDirtyQueue e)).
        i < length (debugSignals e) \<and> (debugDirtyFlags e)[?idx := False] ! i"
    proof
      fix i assume i: "i \<in> set (drop (Suc (debugQueueHead e)) (debugDirtyQueue e))"
      then have "?idx \<noteq> i" using d(2) by blast
      then have "(debugDirtyFlags e)[?idx := False] ! i = debugDirtyFlags e ! i"
        by (rule nth_list_update_neq)
      then show "i < length (debugSignals e) \<and> (debugDirtyFlags e)[?idx := False] ! i"
        using rest i by simp
    qed
    show ?thesis
      using h inv(1,3) d(1) rest rest' m
      by (simp add: popDirtyDebugSignal_def debugInv_def queueInv_def Let_def)
  qed
qed

lemma reachable_debugInv: "reachable e \<Longrightarrow> debugInv e"
proof (induction rule: reachable.induct)
  case r_new
  show ?case by (simp add: debugInv_def queueInv_def newEngine_def)
next
  case (r_loadRuleset e data)
  then show ?case using debugInv_fields [OF loadRuleset_debug] by simp
next
  case (r_clearRuleset e)
  then show ?case by (simp add: debugInv_def clearRuleset_def)
next
  case (r_registerCapability e cid)
  then show ?case by (simp add: debugInv_def registerCapability_def)
next
  case (r_processCanFrame e frame now)
  then show ?case using processCanFrame_debugInv by blast
next
  case (r_evaluateRules e now e' outs)
  then show ?case using debugInv_fields [OF evaluateRules_debug] by blast
next
  case (r_loadDebugSignals e newSignals)
  show ?case by (rule loadDebugSignals_debugInv)
next
  case (r_clearDebugSignals e)
  show ?case by (simp add: debugInv_def queueInv_def clearDebugSignals_def)
next
  case (r_setDebugMode e enabled)
  then show ?case by (simp add: debugInv_def setDebugMode_def)
next
  case (r_popDirtyDebugSignal e)
  then show ?case by (simp add: popDirtyDebugSignal_debugInv)
qed

text \<open>
  C9. In every reachable state the dirty queue holds at most 64 entries and its pending
  entries are distinct. An index that is pending after a CAN frame and was not before
  belongs to an overlay signal whose value decoded from the frame differs from its
  last reported value by more than the threshold. A call of \<open>popDirtyDebugSignal\<close> that
  returns true removes the first pending entry and no other, hands out that signal, and
  sets its last reported value to its value.
\<close>

theorem C9_dirty_queue:
  assumes "reachable e"
  shows "length (debugDirtyQueue e) \<le> 64 \<and> length (pendingDirty e) \<le> 64 \<and>
         distinct (pendingDirty e) \<and>
         (\<forall>frame now idx.
            idx \<in> set (pendingDirty (processCanFrame frame now e)) \<and>
            idx \<notin> set (pendingDirty e) \<longrightarrow>
              idx < length (debugSignals e) \<and>
              debugThreshold <
                \<bar>decodeSignal (debugSignals e ! idx) (fdata frame) -
                 lastDebugValue (debugSignals e ! idx)\<bar>) \<and>
         (\<forall>out e'. popDirtyDebugSignal e = (True, out, e') \<longrightarrow>
            (\<exists>idx. pendingDirty e = idx # pendingDirty e' \<and>
               idx < length (debugSignals e) \<and>
               out = Some (debugSignals e ! idx) \<and>
               lastDebugValue (debugSignals e' ! idx) = value (debugSignals e ! idx) \<and>
               value (debugSignals e' ! idx) = value (debugSignals e ! idx)))"
proof -
  have inv: "debugInv e"
    using assms by (rule reachable_debugInv)
  then have q: "debugQueueHead e \<le> length (debugDirtyQueue e)"
    "length (debugDirtyQueue e) \<le> 64" "distinct (pendingDirty e)"
    by (simp_all add: debugInv_def queueInv_def pendingDirty_def)
  have a: "length (pendingDirty e) \<le> 64"
    using q(2) by (simp add: pendingDirty_def)
  have b: "\<forall>frame now idx.
      idx \<in> set (pendingDirty (processCanFrame frame now e)) \<and>
      idx \<notin> set (pendingDirty e) \<longrightarrow>
        idx < length (debugSignals e) \<and>
        debugThreshold <
          \<bar>decodeSignal (debugSignals e ! idx) (fdata frame) -
           lastDebugValue (debugSignals e ! idx)\<bar>"
  proof (intro allI impI)
    fix frame now idx
    assume i: "idx \<in> set (pendingDirty (processCanFrame frame now e)) \<and>
      idx \<notin> set (pendingDirty e)"
    from processCanFrame_debugInv [OF inv, of frame now] obtain new where
      n: "debugDirtyQueue (processCanFrame frame now e) = debugDirtyQueue e @ new"
      "\<forall>i\<in>set new. i < length (debugSignals e) \<and>
         debugThreshold < \<bar>decodeSignal (debugSignals e ! i) (fdata frame) -
           lastDebugValue (debugSignals e ! i)\<bar>"
      by (auto simp add: enqueuedOk_def)
    have "pendingDirty (processCanFrame frame now e) = pendingDirty e @ new"
      using n(1) q(1) by (simp add: pendingDirty_def processCanFrame_debug_fields(2))
    then have "idx \<in> set new" using i by auto
    then show "idx < length (debugSignals e) \<and>
        debugThreshold <
          \<bar>decodeSignal (debugSignals e ! idx) (fdata frame) -
           lastDebugValue (debugSignals e ! idx)\<bar>"
      using n(2) by blast
  qed
  have c: "\<forall>out e'. popDirtyDebugSignal e = (True, out, e') \<longrightarrow>
      (\<exists>idx. pendingDirty e = idx # pendingDirty e' \<and>
         idx < length (debugSignals e) \<and>
         out = Some (debugSignals e ! idx) \<and>
         lastDebugValue (debugSignals e' ! idx) = value (debugSignals e ! idx) \<and>
         value (debugSignals e' ! idx) = value (debugSignals e ! idx))"
  proof (intro allI impI)
    fix out e' assume p: "popDirtyDebugSignal e = (True, out, e')"
    let ?idx = "debugDirtyQueue e ! debugQueueHead e"
    from p have h: "debugQueueHead e < length (debugDirtyQueue e)"
      and i: "?idx < length (debugSignals e)"
      by (auto simp add: popDirtyDebugSignal_def Let_def split: if_splits)
    from p h i have o: "out = Some (debugSignals e ! ?idx)"
      and e': "e' = e\<lparr>debugQueueHead := debugQueueHead e + 1,
          debugDirtyFlags := (debugDirtyFlags e)[?idx := False],
          debugSignals := (debugSignals e)
            [?idx := (debugSignals e ! ?idx)\<lparr>lastDebugValue := value (debugSignals e ! ?idx)\<rparr>]\<rparr>"
      by (auto simp add: popDirtyDebugSignal_def Let_def)
    have "pendingDirty e = ?idx # pendingDirty e'"
      using h by (simp add: pendingDirty_def e' Cons_nth_drop_Suc)
    moreover have "lastDebugValue (debugSignals e' ! ?idx) = value (debugSignals e ! ?idx)"
      "value (debugSignals e' ! ?idx) = value (debugSignals e ! ?idx)"
      using i by (simp_all add: e')
    ultimately show "\<exists>idx. pendingDirty e = idx # pendingDirty e' \<and>
         idx < length (debugSignals e) \<and>
         out = Some (debugSignals e ! idx) \<and>
         lastDebugValue (debugSignals e' ! idx) = value (debugSignals e ! idx) \<and>
         value (debugSignals e' ! idx) = value (debugSignals e ! idx)"
      using i o by blast
  qed
  from q(2,3) a b c show ?thesis by blast
qed

lemma watchEngine_fields:
  "debugSignals watchEngine = [mkSignal 0x100 0 8 False False 1 0]"
  "debugDirtyFlags watchEngine = [False]"
  "debugDirtyQueue watchEngine = []"
  "debugQueueHead watchEngine = 0"
  "debugMode watchEngine = True"
  "debugSignalMap watchEngine 0x100 = Some [0]"
  by (simp_all add: watchEngine_def loadDebugSignals_def newEngine_def buildSignalMap_def
      pushIndex_def mkSignal_def)

lemma watchEngineDirty_fields:
  "debugDirtyQueue watchEngineDirty = [0]"
  "debugQueueHead watchEngineDirty = 0"
  "debugSignals watchEngineDirty =
     [(mkSignal 0x100 0 8 False False 1 0)\<lparr>value := 7, lastUpdateMs := 50, everSet := True\<rparr>]"
proof -
  have fid: "fid frame7 = 0x100" by (simp add: frame7_def)
  have st: "debugStep (fdata frame7) 50 0
      ([mkSignal 0x100 0 8 False False 1 0], [False], []) =
      ([(mkSignal 0x100 0 8 False False 1 0)\<lparr>value := 7, lastUpdateMs := 50, everSet := True\<rparr>],
       [True], [0])"
  proof -
    let ?s = "mkSignal 0x100 0 8 False False 1 0"
    have mk: "value ?s = 0" "lastDebugValue ?s = - 7999999 / 8"
      by (simp_all add: mkSignal_def)
    have u: "updateSignal (fdata frame7) 50 ?s =
        ?s\<lparr>value := 7, lastUpdateMs := 50, everSet := True\<rparr>"
      by (simp add: updateSignal_def decode_frame7(1)) (simp add: mkSignal_def)
    have v: "value (?s\<lparr>value := 7, lastUpdateMs := 50, everSet := True\<rparr>) = 7"
      "lastDebugValue (?s\<lparr>value := 7, lastUpdateMs := 50, everSet := True\<rparr>) =
         - 7999999 / 8"
      by (simp_all add: mk)
    show ?thesis
      unfolding debugStep_def Let_def prod.case
      apply (simp only: nth_Cons_0 u v debugThreshold_def)
      apply simp
      done
  qed
  have "(debugSignals watchEngineDirty, debugDirtyFlags watchEngineDirty,
      debugDirtyQueue watchEngineDirty) =
      ([(mkSignal 0x100 0 8 False False 1 0)\<lparr>value := 7, lastUpdateMs := 50, everSet := True\<rparr>],
       [True], [0])"
    unfolding watchEngineDirty_def processCanFrame_debug_fields(1) fid
    by (simp add: watchEngine_fields st)
  then show "debugDirtyQueue watchEngineDirty = [0]"
    "debugSignals watchEngineDirty =
     [(mkSignal 0x100 0 8 False False 1 0)\<lparr>value := 7, lastUpdateMs := 50, everSet := True\<rparr>]"
    by simp_all
  show "debugQueueHead watchEngineDirty = 0"
    by (simp add: watchEngineDirty_def processCanFrame_debug_fields(2) watchEngine_fields)
qed

theorem C9_dirty_queue_witness:
  "reachable watchEngine \<and> reachable watchEngineDirty \<and>
   pendingDirty watchEngine = [] \<and> pendingDirty watchEngineDirty = [0] \<and>
   length (debugDirtyQueue watchEngineDirty) \<le> 64 \<and> distinct (pendingDirty watchEngineDirty) \<and>
   debugThreshold <
     \<bar>decodeSignal (debugSignals watchEngine ! 0) (fdata frame7) -
      lastDebugValue (debugSignals watchEngine ! 0)\<bar> \<and>
   (\<exists>out e'. popDirtyDebugSignal watchEngineDirty = (True, out, e') \<and>
      pendingDirty e' = [] \<and> lastDebugValue (debugSignals e' ! 0) = 7)"
proof -
  have r0: "reachable watchEngine"
    unfolding watchEngine_def by (rule r_loadDebugSignals) (rule r_new)
  have r1: "reachable watchEngineDirty"
    unfolding watchEngineDirty_def using r0 by (rule r_processCanFrame)
  have p0: "pendingDirty watchEngine = []"
    by (simp add: pendingDirty_def watchEngine_fields)
  have p1: "pendingDirty watchEngineDirty = [0]"
    by (simp add: pendingDirty_def watchEngineDirty_fields)
  note t0 = C9_dirty_queue [OF r0]
  note t1 = C9_dirty_queue [OF r1]
  have len: "length (debugDirtyQueue watchEngineDirty) \<le> 64"
    using t1 [THEN conjunct1] .
  have dist: "distinct (pendingDirty watchEngineDirty)"
    using t1 [THEN conjunct2, THEN conjunct2, THEN conjunct1] .
  have new: "0 \<in> set (pendingDirty (processCanFrame frame7 50 watchEngine)) \<and>
      0 \<notin> set (pendingDirty watchEngine)"
    using p0 p1 by (simp add: watchEngineDirty_def)
  have enq: "debugThreshold <
     \<bar>decodeSignal (debugSignals watchEngine ! 0) (fdata frame7) -
      lastDebugValue (debugSignals watchEngine ! 0)\<bar>"
    using t0 [THEN conjunct2, THEN conjunct2, THEN conjunct2, THEN conjunct1,
        rule_format, OF new] by (rule conjunct2)
  have "fst (popDirtyDebugSignal watchEngineDirty)"
    by (simp add: popDirtyDebugSignal_def watchEngineDirty_fields Let_def)
  then obtain out e' where pop: "popDirtyDebugSignal watchEngineDirty = (True, out, e')"
    by (cases "popDirtyDebugSignal watchEngineDirty") auto
  from t1 [THEN conjunct2, THEN conjunct2, THEN conjunct2, THEN conjunct2,
      rule_format, OF pop]
  obtain idx where i: "pendingDirty watchEngineDirty = idx # pendingDirty e'"
    "lastDebugValue (debugSignals e' ! idx) = value (debugSignals watchEngineDirty ! idx)"
    by blast
  from i(1) p1 have z: "idx = 0" "pendingDirty e' = []" by simp_all
  have "value (debugSignals watchEngineDirty ! 0) = 7"
    by (simp add: watchEngineDirty_fields)
  with i(2) z(1) have "lastDebugValue (debugSignals e' ! 0) = 7"
    by simp
  with pop z(2) have
    "\<exists>out e'. popDirtyDebugSignal watchEngineDirty = (True, out, e') \<and>
      pendingDirty e' = [] \<and> lastDebugValue (debugSignals e' ! 0) = 7"
    by blast
  with r0 r1 p0 p1 len dist enq show ?thesis by simp
qed

section \<open>The end of a full firmware update\<close>

lemma esp_crc32_le_Nil: "esp_crc32_le c [] = c"
  by (simp add: esp_crc32_le_def)

lemma esp_crc32_le_append:
  "esp_crc32_le (esp_crc32_le c xs) ys = esp_crc32_le c (xs @ ys)"
  by (simp add: esp_crc32_le_def)

lemma crc_zero_byte: "esp_crc32_le 0 [0] = 0xD202EF8D"
  by (simp add: crc_defs)

lemma notifyProgress_fields:
  "status (notifyProgress s) = status s"
  "isDelta (notifyProgress s) = isDelta s"
  "otaExpectedSize (notifyProgress s) = otaExpectedSize s"
  "expectedCRC (notifyProgress s) = expectedCRC s"
  "receivedBytes (notifyProgress s) = receivedBytes s"
  "calculatedCRC (notifyProgress s) = calculatedCRC s"
  by (simp_all add: notifyProgress_def)

lemma notifyComplete_status: "status (notifyComplete st s) = st"
  by (simp add: notifyComplete_def)

lemma unat_received:
  fixes r :: u32
  assumes "unat r = n" "n + m < 2 ^ 32"
  shows "unat (r + of_nat m) = n + m"
proof -
  have m: "unat (of_nat m :: u32) = m"
    using assms(2) by (simp add: unat_of_nat)
  have "unat r + unat (of_nat m :: u32) < 2 ^ LENGTH(32)"
    using assms m by simp
  then have "unat (r + of_nat m) = unat r + unat (of_nat m :: u32)"
    by (rule unat_add_lem [THEN iffD1])
  then show ?thesis using assms(1) m by simp
qed

text \<open>What holds in every state of a full session.\<close>

lemma fullSession_inv:
  assumes "fullSession N C bs s"
  shows "status s = RECEIVING \<and> \<not> isDelta s \<and> otaExpectedSize s = N \<and>
         expectedCRC s = C \<and> unat (receivedBytes s) = length bs \<and>
         calculatedCRC s = esp_crc32_le 0 bs \<and> length bs \<le> unat N"
  using assms
proof (induction rule: fullSession.induct)
  case (fs_start nextPartition beginResult N C s0 s)
  then show ?case
    by (auto simp add: startFirmwareUpdate_def Let_def esp_crc32_le_Nil
        split: if_splits option.splits)
next
  case (fs_write N C bs s data writeOk s')
  let ?len = "of_nat (length data) :: u32"
  from fs_write.IH have st: "status s = RECEIVING" "\<not> isDelta s"
    and f: "otaExpectedSize s = N" "expectedCRC s = C" "unat (receivedBytes s) = length bs"
      "calculatedCRC s = esp_crc32_le 0 bs"
    by simp_all
  from fs_write.hyps(3) st have le: "\<not> receivedBytes s + ?len > otaExpectedSize s"
    and s': "s' = notifyProgress
      (s\<lparr>receivedBytes := receivedBytes s + ?len,
          calculatedCRC := esp_crc32_le (calculatedCRC s) data\<rparr>)"
    by (auto simp add: writeFirmwareChunk_def Let_def split: if_splits)
  have u: "unat (receivedBytes s + ?len) = length bs + length data"
    using f(3) fs_write.hyps(2) by (rule unat_received)
  from le have "unat (receivedBytes s + ?len) \<le> unat N"
    by (simp add: f(1) word_le_nat_alt not_less)
  with u have "length (bs @ data) \<le> unat N" by simp
  then show ?case
    by (simp add: s' notifyProgress_fields st f u esp_crc32_le_append)
qed

lemma finalize_cases:
  assumes "status s = RECEIVING" "\<not> isDelta s"
  shows
    "receivedBytes s \<noteq> otaExpectedSize s \<Longrightarrow>
       \<not> fst (finalizeFirmwareUpdate endOk bootOk s) \<and>
       getStatus (snd (finalizeFirmwareUpdate endOk bootOk s)) = ERROR_SPACE"
    "receivedBytes s = otaExpectedSize s \<Longrightarrow> calculatedCRC s \<noteq> expectedCRC s \<Longrightarrow>
       \<not> fst (finalizeFirmwareUpdate endOk bootOk s) \<and>
       getStatus (snd (finalizeFirmwareUpdate endOk bootOk s)) = ERROR_CRC"
    "receivedBytes s = otaExpectedSize s \<Longrightarrow> calculatedCRC s = expectedCRC s \<Longrightarrow>
       endOk \<and> bootOk \<Longrightarrow>
       fst (finalizeFirmwareUpdate endOk bootOk s) \<and>
       getStatus (snd (finalizeFirmwareUpdate endOk bootOk s)) = SUCCESS"
    "receivedBytes s = otaExpectedSize s \<Longrightarrow> calculatedCRC s = expectedCRC s \<Longrightarrow>
       \<not> (endOk \<and> bootOk) \<Longrightarrow>
       \<not> fst (finalizeFirmwareUpdate endOk bootOk s) \<and>
       getStatus (snd (finalizeFirmwareUpdate endOk bootOk s)) = ERROR_FLASH"
  using assms
  by (auto simp add: finalizeFirmwareUpdate_def Let_def getStatus_def notifyComplete_status)

text \<open>
  C7, as the code has it. In a full session started with the size \<open>N\<close> and the CRC \<open>C\<close>
  in which the bytes \<open>bs\<close> have been written: with \<open>N\<close> bytes whose CRC-32 is \<open>C\<close>,
  \<open>finalizeFirmwareUpdate\<close> returns true with the status \<open>SUCCESS\<close> when \<open>esp_ota_end\<close>
  and \<open>esp_ota_set_boot_partition\<close> both succeed, and false with \<open>ERROR_FLASH\<close> when one
  of them fails; with fewer than \<open>N\<close> bytes it returns false with \<open>ERROR_SPACE\<close>; with
  \<open>N\<close> bytes of another CRC-32 it returns false with \<open>ERROR_CRC\<close>. A chunk that takes
  the count past \<open>N\<close>, the sum staying below \<open>2 ^ 32\<close>, makes \<open>writeFirmwareChunk\<close>
  return false with \<open>ERROR_SPACE\<close>, whatever the flash would answer.
\<close>

theorem C7_finalize_full_session:
  assumes "fullSession N C bs s"
  shows
    "(length bs = unat N \<and> esp_crc32_le 0 bs = C \<and> endOk \<and> bootOk \<longrightarrow>
        fst (finalizeFirmwareUpdate endOk bootOk s) \<and>
        getStatus (snd (finalizeFirmwareUpdate endOk bootOk s)) = SUCCESS) \<and>
     (length bs = unat N \<and> esp_crc32_le 0 bs = C \<and> \<not> (endOk \<and> bootOk) \<longrightarrow>
        \<not> fst (finalizeFirmwareUpdate endOk bootOk s) \<and>
        getStatus (snd (finalizeFirmwareUpdate endOk bootOk s)) = ERROR_FLASH) \<and>
     (length bs < unat N \<longrightarrow>
        \<not> fst (finalizeFirmwareUpdate endOk bootOk s) \<and>
        getStatus (snd (finalizeFirmwareUpdate endOk bootOk s)) = ERROR_SPACE) \<and>
     (length bs = unat N \<and> esp_crc32_le 0 bs \<noteq> C \<longrightarrow>
        \<not> fst (finalizeFirmwareUpdate endOk bootOk s) \<and>
        getStatus (snd (finalizeFirmwareUpdate endOk bootOk s)) = ERROR_CRC) \<and>
     (unat N < length bs + length data \<and> length bs + length data < 2 ^ 32 \<longrightarrow>
        \<not> fst (writeFirmwareChunk writeOk data s) \<and>
        getStatus (snd (writeFirmwareChunk writeOk data s)) = ERROR_SPACE)"
proof -
  from fullSession_inv [OF assms] have st: "status s = RECEIVING" "\<not> isDelta s"
    and f: "otaExpectedSize s = N" "expectedCRC s = C" "unat (receivedBytes s) = length bs"
      "calculatedCRC s = esp_crc32_le 0 bs"
    by simp_all
  have eq: "receivedBytes s = otaExpectedSize s \<longleftrightarrow> length bs = unat N"
    using f(1,3) by (auto simp add: word_unat_eq_iff)
  note fc = finalize_cases [OF st, of endOk bootOk]
  have a: "length bs = unat N \<and> esp_crc32_le 0 bs = C \<and> endOk \<and> bootOk \<longrightarrow>
        fst (finalizeFirmwareUpdate endOk bootOk s) \<and>
        getStatus (snd (finalizeFirmwareUpdate endOk bootOk s)) = SUCCESS"
    using fc(3) eq f(2,4) by simp
  have b: "length bs = unat N \<and> esp_crc32_le 0 bs = C \<and> \<not> (endOk \<and> bootOk) \<longrightarrow>
        \<not> fst (finalizeFirmwareUpdate endOk bootOk s) \<and>
        getStatus (snd (finalizeFirmwareUpdate endOk bootOk s)) = ERROR_FLASH"
    using fc(4) eq f(2,4) by simp
  have c: "length bs < unat N \<longrightarrow>
        \<not> fst (finalizeFirmwareUpdate endOk bootOk s) \<and>
        getStatus (snd (finalizeFirmwareUpdate endOk bootOk s)) = ERROR_SPACE"
    using fc(1) eq by simp
  have d: "length bs = unat N \<and> esp_crc32_le 0 bs \<noteq> C \<longrightarrow>
        \<not> fst (finalizeFirmwareUpdate endOk bootOk s) \<and>
        getStatus (snd (finalizeFirmwareUpdate endOk bootOk s)) = ERROR_CRC"
    using fc(2) eq f(2,4) by simp
  have e: "unat N < length bs + length data \<and> length bs + length data < 2 ^ 32 \<longrightarrow>
        \<not> fst (writeFirmwareChunk writeOk data s) \<and>
        getStatus (snd (writeFirmwareChunk writeOk data s)) = ERROR_SPACE"
  proof
    assume h: "unat N < length bs + length data \<and> length bs + length data < 2 ^ 32"
    then have "unat (receivedBytes s + of_nat (length data)) = length bs + length data"
      using f(3) unat_received by blast
    with h have "receivedBytes s + of_nat (length data) > otaExpectedSize s"
      by (simp add: f(1) word_less_nat_alt)
    then show "\<not> fst (writeFirmwareChunk writeOk data s) \<and>
        getStatus (snd (writeFirmwareChunk writeOk data s)) = ERROR_SPACE"
      using st by (simp add: writeFirmwareChunk_def Let_def getStatus_def notifyComplete_status)
  qed
  from a b c d e show ?thesis by (intro conjI)
qed

lemma otaStarted_session: "fullSession 1 0xD202EF8D [] otaStarted"
proof -
  have "startFirmwareUpdate (Some otaPartition) (Some 1) 1 0xD202EF8D newOTAService =
      (True, otaStarted)"
    by (simp add: otaStarted_def startFirmwareUpdate_def newOTAService_def otaPartition_def
        Let_def)
  then show ?thesis by (rule fs_start)
qed

lemma otaStarted_fields:
  "status otaStarted = RECEIVING" "isDelta otaStarted = False"
  "otaExpectedSize otaStarted = 1" "receivedBytes otaStarted = 0"
  by (simp_all add: otaStarted_def startFirmwareUpdate_def newOTAService_def otaPartition_def
      Let_def)

lemma otaReceived_session: "fullSession 1 0xD202EF8D [0] otaReceived"
proof -
  have "writeFirmwareChunk True [0] otaStarted = (True, otaReceived)"
    by (simp add: otaReceived_def writeFirmwareChunk_def otaStarted_fields Let_def)
  from fs_write [OF otaStarted_session _ this] show ?thesis by simp
qed

lemma otaReceivedBadCrc_session: "fullSession 1 0 [0] otaReceivedBadCrc"
proof -
  let ?s = "snd (startFirmwareUpdate (Some otaPartition) (Some 1) 1 0 newOTAService)"
  have "startFirmwareUpdate (Some otaPartition) (Some 1) 1 0 newOTAService = (True, ?s)"
    by (simp add: startFirmwareUpdate_def newOTAService_def otaPartition_def Let_def)
  then have s: "fullSession 1 0 [] ?s" by (rule fs_start)
  have "status ?s = RECEIVING" "isDelta ?s = False" "otaExpectedSize ?s = 1"
    "receivedBytes ?s = 0"
    by (simp_all add: startFirmwareUpdate_def newOTAService_def otaPartition_def Let_def)
  then have "writeFirmwareChunk True [0] ?s = (True, otaReceivedBadCrc)"
    by (simp add: otaReceivedBadCrc_def writeFirmwareChunk_def Let_def)
  from fs_write [OF s _ this] show ?thesis by simp
qed

theorem C7_finalize_full_session_witness:
  "fullSession 1 0xD202EF8D [0] otaReceived \<and>
   fst (finalizeFirmwareUpdate True True otaReceived) \<and>
   getStatus (snd (finalizeFirmwareUpdate True True otaReceived)) = SUCCESS \<and>
   \<not> fst (finalizeFirmwareUpdate True False otaReceived) \<and>
   getStatus (snd (finalizeFirmwareUpdate True False otaReceived)) = ERROR_FLASH \<and>
   \<not> fst (finalizeFirmwareUpdate True True otaStarted) \<and>
   getStatus (snd (finalizeFirmwareUpdate True True otaStarted)) = ERROR_SPACE \<and>
   \<not> fst (finalizeFirmwareUpdate True True otaReceivedBadCrc) \<and>
   getStatus (snd (finalizeFirmwareUpdate True True otaReceivedBadCrc)) = ERROR_CRC \<and>
   \<not> fst (writeFirmwareChunk True [5] otaReceived) \<and>
   getStatus (snd (writeFirmwareChunk True [5] otaReceived)) = ERROR_SPACE"
proof -
  note r = otaReceived_session
  have a: "fst (finalizeFirmwareUpdate True True otaReceived) \<and>
      getStatus (snd (finalizeFirmwareUpdate True True otaReceived)) = SUCCESS"
    using C7_finalize_full_session [OF r, of True True, THEN conjunct1] crc_zero_byte
    by simp
  have b: "\<not> fst (finalizeFirmwareUpdate True False otaReceived) \<and>
      getStatus (snd (finalizeFirmwareUpdate True False otaReceived)) = ERROR_FLASH"
    using C7_finalize_full_session [OF r, of True False, THEN conjunct2, THEN conjunct1]
      crc_zero_byte
    by simp
  have c: "\<not> fst (finalizeFirmwareUpdate True True otaStarted) \<and>
      getStatus (snd (finalizeFirmwareUpdate True True otaStarted)) = ERROR_SPACE"
    using C7_finalize_full_session [OF otaStarted_session, of True True,
        THEN conjunct2, THEN conjunct2, THEN conjunct1]
    by simp
  have d: "\<not> fst (finalizeFirmwareUpdate True True otaReceivedBadCrc) \<and>
      getStatus (snd (finalizeFirmwareUpdate True True otaReceivedBadCrc)) = ERROR_CRC"
    using C7_finalize_full_session [OF otaReceivedBadCrc_session, of True True,
        THEN conjunct2, THEN conjunct2, THEN conjunct2, THEN conjunct1] crc_zero_byte
    by simp
  have e: "\<not> fst (writeFirmwareChunk True [5] otaReceived) \<and>
      getStatus (snd (writeFirmwareChunk True [5] otaReceived)) = ERROR_SPACE"
    using C7_finalize_full_session [OF r, of _ _ "[5]" True,
        THEN conjunct2, THEN conjunct2, THEN conjunct2, THEN conjunct2]
    by simp
  from r a b c d e show ?thesis by (intro conjI) simp_all
qed

text \<open>
  C7 as stated fails: the session announces one byte with the CRC \<open>0xD202EF8D\<close> and
  receives the byte 0, which has that CRC-32; \<open>esp_ota_end\<close> then reports an error, and
  \<open>finalizeFirmwareUpdate\<close> returns false with the status \<open>ERROR_FLASH\<close>.
\<close>

theorem C7_flash_error_counterexample:
  "fullSession 1 0xD202EF8D [0] otaReceived \<and>
   unat (receivedBytes otaReceived) = unat (1 :: u32) \<and>
   calculatedCRC otaReceived = 0xD202EF8D \<and>
   esp_crc32_le 0 [0] = (0xD202EF8D :: u32) \<and>
   fst (finalizeFirmwareUpdate False True otaReceived) = False \<and>
   getStatus (snd (finalizeFirmwareUpdate False True otaReceived)) = ERROR_FLASH"
proof -
  have f: "status otaReceived = RECEIVING" "isDelta otaReceived = False"
    "otaExpectedSize otaReceived = 1" "receivedBytes otaReceived = 1"
    "expectedCRC otaReceived = 0xD202EF8D"
    "calculatedCRC otaReceived = esp_crc32_le 0 [0]"
    by (simp_all add: otaReceived_def writeFirmwareChunk_def otaStarted_fields Let_def
        notifyProgress_fields)
      (simp_all add: otaStarted_def startFirmwareUpdate_def newOTAService_def
        otaPartition_def Let_def)
  have "fst (finalizeFirmwareUpdate False True otaReceived) = False \<and>
      getStatus (snd (finalizeFirmwareUpdate False True otaReceived)) = ERROR_FLASH"
    by (simp add: finalizeFirmwareUpdate_def Let_def f crc_zero_byte getStatus_def
        notifyComplete_status)
  with otaReceived_session f(4,6) crc_zero_byte show ?thesis by simp
qed


end
